theory Spec2Isabelle
  imports Main "HOL-Library.Sublist" "HOL-Library.AList"
begin

section \<open>Python strings\<close>

text \<open>
  A Python \<open>str\<close> is modelled as a \<open>string\<close>. The builder only compares characters and
  cuts strings at the delimiters \<open>->\<close>, \<open>|\<close>, \<open>=\<close> and at the space character, so
  nothing depends on the encoding.
\<close>

datatype error = IndexError | KeyError | ValueError | LoopError | AssertionError

text \<open>
  \<open>x.replace(old, new)\<close>: scan from the left, replacing every non-overlapping occurrence
  of \<open>old\<close>. For the empty \<open>old\<close> Python puts \<open>new\<close> before every character and at the end.
\<close>

fun replace_from :: "string \<Rightarrow> string \<Rightarrow> string \<Rightarrow> string" where
  "replace_from old new [] = []"
| "replace_from old new (c # cs) =
     (if old \<noteq> [] \<and> prefix old (c # cs)
      then new @ replace_from old new (drop (length old) (c # cs))
      else c # replace_from old new cs)"

definition py_replace :: "string \<Rightarrow> string \<Rightarrow> string \<Rightarrow> string" where
  "py_replace x old new =
     (if old = [] then new @ concat (map (\<lambda>c. c # new) x) else replace_from old new x)"

text \<open>
  \<open>x.split(sep)\<close> for a non-empty \<open>sep\<close>: the segments between the non-overlapping
  occurrences of \<open>sep\<close>, found from the left; always at least one segment. \<open>cur\<close> is the
  segment being read.
\<close>

fun split_from :: "string \<Rightarrow> string \<Rightarrow> string \<Rightarrow> string list" where
  "split_from sep cur [] = [cur]"
| "split_from sep cur (c # cs) =
     (if sep \<noteq> [] \<and> prefix sep (c # cs)
      then cur # split_from sep [] (drop (length sep) (c # cs))
      else split_from sep (cur @ [c]) cs)"

definition py_split :: "string \<Rightarrow> string \<Rightarrow> string list" where
  "py_split x sep = split_from sep [] x"

section \<open>Data processing functions\<close>

definition strip_process :: "string \<Rightarrow> string" where
  "strip_process x = py_replace x '' '' ''''"

text \<open>\<open>s[0], s[1]\<close>: the second index raises \<open>IndexError\<close> on a one-element list.\<close>

definition split_process :: "string \<Rightarrow> error + string \<times> string" where
  "split_process x =
     (case py_split x ''->'' of
        s0 # s1 # _ \<Rightarrow> Inr (s0, s1)
      | _ \<Rightarrow> Inl IndexError)"

text \<open>
  The dictionary comprehension of \<open>split_params\<close>, one segment at a time: a dictionary is
  an association list in insertion order, and storing under a key that is present
  replaces its value in place.
\<close>

fun params_dict :: "string list list \<Rightarrow> (string \<times> string) list \<Rightarrow> error + (string \<times> string) list" where
  "params_dict [] d = Inr d"
| "params_dict (i # s) d =
     (case i of
        k # v # _ \<Rightarrow> params_dict s (AList.update (py_replace k '' '' '''') (py_replace v '' '' '''') d)
      | _ \<Rightarrow> Inl IndexError)"

definition split_params :: "string \<Rightarrow> error + (string \<times> string) list" where
  "split_params x = params_dict (map (\<lambda>i. py_split i ''='') (py_split x ''|'')) []"

section \<open>Nodes\<close>

text \<open>
  Modelled from the spec: the node class of the tree library, which \<open>Generative_Node\<close>
  extends and which is not among the sources. A node is a tree vertex with a name; it
  has exactly one parent reference, or none when it is a root, and the tree owns the
  links from a parent to its children. \<open>set_node\<close> adds the attributes \<open>label\<close>,
  \<open>module\<close>, \<open>params\<close> and \<open>kwargs\<close> (\<open>None\<close> while an attribute has not been set).
  Nodes are shared and mutated, so they live in a store: an address is the identity of
  a node object, and \<open>is\<close> on nodes is equality of addresses.
\<close>

type_synonym addr = nat

record node =
  name :: string
  parent :: "addr option"
  children :: "addr list"
  node_label :: "string option"
  node_module :: "string option"
  node_params :: "string option"
  kwargs :: "(string \<times> string) list option"

type_synonym heap = "addr \<Rightarrow> node"

definition bare :: "string \<Rightarrow> node" where
  "bare nm = \<lparr>name = nm, parent = None, children = [], node_label = None,
              node_module = None, node_params = None, kwargs = None\<rparr>"

text \<open>
  Modelled from the spec: the loop check of the library's parent setter. A node has one
  parent and the result is a tree, so the library refuses a parent that has \<open>self\<close> on
  its path to the root: it walks from the new parent along the parent references until a
  node without parent, looking for \<open>self\<close>. On a cyclic store the walk would not end;
  that is the value \<open>None\<close>.
\<close>

partial_function (option) in_path :: "heap \<Rightarrow> addr \<Rightarrow> addr \<Rightarrow> bool option" where
  "in_path h self nd =
     (if nd = self then Some True
      else case parent (h nd) of None \<Rightarrow> Some False | Some p \<Rightarrow> in_path h self p)"

declare in_path.simps [code]

text \<open>
  Modelled from the spec: the two halves of the library's parent setter. Detaching
  removes \<open>self\<close> from its parent's children and clears the parent reference; attaching
  appends \<open>self\<close> to the new parent's children, so children stay in the order in which
  they were linked. Both assert that the two directions of the link agree.
\<close>

definition detach :: "heap \<Rightarrow> addr \<Rightarrow> error + heap" where
  "detach h self =
     (case parent (h self) of
        None \<Rightarrow> Inr h
      | Some p \<Rightarrow>
          if self \<notin> set (children (h p)) then Inl AssertionError
          else let h1 = h(p := (h p)\<lparr>children := filter (\<lambda>c. c \<noteq> self) (children (h p))\<rparr>)
               in Inr (h1(self := (h1 self)\<lparr>parent := None\<rparr>)))"

definition attach :: "heap \<Rightarrow> addr \<Rightarrow> addr \<Rightarrow> error + heap" where
  "attach h self p =
     (if self \<in> set (children (h p)) then Inl AssertionError
      else let h1 = h(p := (h p)\<lparr>children := children (h p) @ [self]\<rparr>)
           in Inr (h1(self := (h1 self)\<lparr>parent := Some p\<rparr>)))"

text \<open>
  Modelled from the spec: the library's parent setter, \<open>self.parent = value\<close> for a node
  \<open>value\<close>. It sets the parent link of \<open>self\<close> to \<open>value\<close> and overwrites any previous
  parent link: nothing happens when \<open>value\<close> is the parent already; otherwise
  \<open>LoopError\<close> when \<open>value\<close> is \<open>self\<close> or has \<open>self\<close> among its ancestors, else
  detach and attach.
\<close>

definition set_parent :: "heap \<Rightarrow> addr \<Rightarrow> addr \<Rightarrow> (error + heap) option" where
  "set_parent h self v =
     (if parent (h self) = Some v then Some (Inr h)
      else if v = self then Some (Inl LoopError)
      else case in_path h self v of
             None \<Rightarrow> None
           | Some True \<Rightarrow> Some (Inl LoopError)
           | Some False \<Rightarrow>
               Some (case detach h self of Inl e \<Rightarrow> Inl e | Inr h1 \<Rightarrow> attach h1 self v))"

text \<open>
  Modelled from the spec: \<open>LevelOrderIter\<close>, the library's breadth-first iterator, which
  is not among the sources. It produces the level-order sequence of the nodes starting at
  the root; here the yielded nodes are collected in a list: yield every node of the
  current level, gather their children as the next level, until a level is empty. The
  iterator reads the tree and does not change it. On a store where the levels never
  become empty the iteration would not end; that is the value \<open>None\<close>.
\<close>

partial_function (option) level_order :: "heap \<Rightarrow> addr list \<Rightarrow> addr list option" where
  "level_order h cs =
     (if cs = [] then Some []
      else Option.bind (level_order h (concat (map (\<lambda>c. children (h c)) cs)))
             (\<lambda>ys. Some (cs @ ys)))"

declare level_order.simps [code]

section \<open>Tree building functions\<close>

record row =
  process :: string
  label :: string
  module :: string
  params :: string

text \<open>
  The state of a build: the store, the next unused address, and the dictionary \<open>nodes\<close>
  from names to node objects.
\<close>

record build_state =
  heap :: heap
  fresh :: addr
  nodes :: "(string \<times> addr) list"

definition init :: build_state where
  "init = \<lparr>heap = (\<lambda>_. bare []), fresh = 0, nodes = []\<rparr>"

definition new_node :: "build_state \<Rightarrow> string \<Rightarrow> build_state \<times> addr" where
  "new_node st nm =
     (st\<lparr>heap := (heap st)(fresh st := bare nm), fresh := Suc (fresh st)\<rparr>, fresh st)"

definition set_node ::
  "heap \<Rightarrow> addr \<Rightarrow> string \<Rightarrow> string \<Rightarrow> string \<Rightarrow> (string \<times> string) list \<Rightarrow> heap" where
  "set_node h a l m p kw =
     h(a := (h a)\<lparr>node_label := Some l, node_module := Some m,
                  node_params := Some p, kwargs := Some kw\<rparr>)"

definition get_node :: "build_state \<Rightarrow> string \<Rightarrow> build_state \<times> addr" where
  "get_node st nm =
     (case map_of (nodes st) nm of
        Some a \<Rightarrow> (st, a)
      | None \<Rightarrow>
          (let (st1, a) = new_node st nm
           in (st1\<lparr>nodes := AList.update nm a (nodes st1)\<rparr>, a)))"

text \<open>The body of the first loop of \<open>build_tree\<close>, for one row.\<close>

definition pass1_step :: "build_state \<Rightarrow> row \<Rightarrow> (error + build_state) option" where
  "pass1_step st r =
     (let x = process r in
      if x = [] \<or> \<not> sublist ''->'' x then Some (Inr st)
      else case split_process (strip_process x) of
             Inl e \<Rightarrow> Some (Inl e)
           | Inr (s1, s2) \<Rightarrow>
               if s1 = [] then
                 (let (st1, a) = new_node st s2
                  in Some (Inr (st1\<lparr>nodes := AList.update s2 a (nodes st1)\<rparr>)))
               else
                 (let (st1, node_p) = get_node st s1;
                      (st2, node_c) = get_node st1 s2
                  in case set_parent (heap st2) node_c node_p of
                       None \<Rightarrow> None
                     | Some (Inl e) \<Rightarrow> Some (Inl e)
                     | Some (Inr h) \<Rightarrow> Some (Inr (st2\<lparr>heap := h\<rparr>))))"

fun pass1 :: "build_state \<Rightarrow> row list \<Rightarrow> (error + build_state) option" where
  "pass1 st [] = Some (Inr st)"
| "pass1 st (r # rs) =
     (case pass1_step st r of
        Some (Inr st1) \<Rightarrow> pass1 st1 rs
      | other \<Rightarrow> other)"

text \<open>The body of the second loop, for one row.\<close>

definition pass2_step :: "build_state \<Rightarrow> row \<Rightarrow> error + build_state" where
  "pass2_step st r =
     (case split_process (strip_process (process r)) of
        Inl e \<Rightarrow> Inl e
      | Inr (s1, s2) \<Rightarrow>
          (case map_of (nodes st) s2 of
             None \<Rightarrow> Inl KeyError
           | Some nd \<Rightarrow>
               (case split_params (params r) of
                  Inl e \<Rightarrow> Inl e
                | Inr kw \<Rightarrow>
                    (let kw1 = AList.update ''child'' (name (heap st nd)) kw;
                         kw2 = (case parent (heap st nd) of
                                  None \<Rightarrow> kw1
                                | Some p \<Rightarrow> AList.update ''parent'' (name (heap st p)) kw1)
                     in Inr (st\<lparr>heap := set_node (heap st) nd (label r) (module r) (params r) kw2,
                                nodes := AList.update s2 nd (nodes st)\<rparr>)))))"

fun pass2 :: "build_state \<Rightarrow> row list \<Rightarrow> error + build_state" where
  "pass2 st [] = Inr st"
| "pass2 st (r # rs) =
     (case pass2_step st r of
        Inl e \<Rightarrow> Inl e
      | Inr st1 \<Rightarrow> pass2 st1 rs)"

definition roots :: "build_state \<Rightarrow> addr list" where
  "roots st = map snd (filter (\<lambda>(pr, nd). parent (heap st nd) = None) (nodes st))"

text \<open>The two passes of \<open>build_tree\<close>, up to the root check.\<close>

definition build_nodes :: "row list \<Rightarrow> (error + build_state) option" where
  "build_nodes df =
     (case pass1 init df of
        None \<Rightarrow> None
      | Some (Inl e) \<Rightarrow> Some (Inl e)
      | Some (Inr st) \<Rightarrow> Some (pass2 st df))"

text \<open>The root check: \<open>roots[0]\<close> raises \<open>IndexError\<close> on the empty list.\<close>

definition pick_root :: "build_state \<Rightarrow> error + addr" where
  "pick_root st =
     (if length (roots st) > 1 then Inl ValueError
      else case roots st of [] \<Rightarrow> Inl IndexError | t # _ \<Rightarrow> Inr t)"

text \<open>
  \<open>build_tree\<close> returns the root node; the model returns the store with it, in the final
  state, since the tree is what the store holds below the root.
\<close>

definition build_tree :: "row list \<Rightarrow> (error + addr \<times> build_state) option" where
  "build_tree df =
     (case build_nodes df of
        None \<Rightarrow> None
      | Some (Inl e) \<Rightarrow> Some (Inl e)
      | Some (Inr st) \<Rightarrow>
          Some (case pick_root st of Inl e \<Rightarrow> Inl e | Inr t \<Rightarrow> Inr (t, st)))"

definition traverse_tree :: "heap \<Rightarrow> addr \<Rightarrow> addr list option" where
  "traverse_tree h t = level_order h [t]"

section \<open>Predicates used in the statements\<close>

text \<open>\<open>spaced x y\<close>: \<open>y\<close> is \<open>x\<close> with space characters inserted at any positions.\<close>

inductive spaced :: "string \<Rightarrow> string \<Rightarrow> bool" where
  spaced_Nil: "spaced [] []"
| spaced_keep: "spaced x y \<Longrightarrow> spaced (c # x) (c # y)"
| spaced_ins: "spaced x y \<Longrightarrow> spaced x (CHR '' '' # y)"

text \<open>
  \<open>before_first sep a x\<close>: \<open>a\<close> is the part of \<open>x\<close> before the first occurrence of
  \<open>sep\<close> (no occurrence of \<open>sep\<close> in \<open>x\<close> starts further left).
\<close>

definition before_first :: "string \<Rightarrow> string \<Rightarrow> string \<Rightarrow> bool" where
  "before_first sep a x \<longleftrightarrow>
     (\<exists>r. x = a @ sep @ r) \<and> (\<forall>u v. x = u @ sep @ v \<longrightarrow> length a \<le> length u)"


text \<open>\<open>parent_rel h\<close>: the pairs (parent, child) of the parent references in the store.\<close>

definition parent_rel :: "heap \<Rightarrow> (addr \<times> addr) set" where
  "parent_rel h = {(p, c). parent (h c) = Some p}"

text \<open>
  What the tree library keeps true of the nodes of a build, \<open>n\<close> being the next unused
  address: unused addresses hold no link, a parent is a node in use, the children lists
  and the parent references describe the same links, no child is listed twice, and no
  node is its own ancestor.
\<close>

definition heap_ok :: "addr \<Rightarrow> heap \<Rightarrow> bool" where
  "heap_ok n h \<longleftrightarrow>
     (\<forall>a. n \<le> a \<longrightarrow> parent (h a) = None \<and> children (h a) = []) \<and>
     (\<forall>a p. parent (h a) = Some p \<longrightarrow> p < n) \<and>
     (\<forall>a c. c \<in> set (children (h a)) \<longleftrightarrow> parent (h c) = Some a) \<and>
     (\<forall>a. distinct (children (h a))) \<and>
     acyclic (parent_rel h)"

text \<open>
  The dictionary \<open>nodes\<close> has each key once, and the node registered under a name is a
  node in use that carries that name.
\<close>

definition reg_ok :: "build_state \<Rightarrow> bool" where
  "reg_ok st \<longleftrightarrow>
     distinct (map fst (nodes st)) \<and>
     (\<forall>s a. map_of (nodes st) s = Some a \<longrightarrow> a < fresh st \<and> name (heap st a) = s)"

definition state_ok :: "build_state \<Rightarrow> bool" where
  "state_ok st \<longleftrightarrow> heap_ok (fresh st) (heap st) \<and> reg_ok st"

text \<open>
  The levels of the tree below \<open>t\<close>: level 0 is \<open>t\<close> alone, and the next level lists the
  children of the nodes of a level, in order.
\<close>

primrec level :: "heap \<Rightarrow> addr \<Rightarrow> nat \<Rightarrow> addr list" where
  "level h t 0 = [t]"
| "level h t (Suc i) = concat (map (\<lambda>c. children (h c)) (level h t i))"

text \<open>\<open>relation_row r\<close>: the first loop does not skip the row \<open>r\<close>.\<close>

definition relation_row :: "row \<Rightarrow> bool" where
  "relation_row r \<longleftrightarrow> process r \<noteq> [] \<and> sublist ''->'' (process r)"

text \<open>The parent and child segments of a row, as both passes compute them.\<close>

definition segments :: "row \<Rightarrow> error + string \<times> string" where
  "segments r = split_process (strip_process (process r))"

text \<open>\<open>succeeds res\<close>: the call returned a value (it raised nothing and it ended).\<close>

definition succeeds :: "(error + 'a) option \<Rightarrow> bool" where
  "succeeds res = (case res of Some (Inr _) \<Rightarrow> True | _ \<Rightarrow> False)"

text \<open>The nodes of the dictionary that have no parent, as a set.\<close>

definition rootless :: "build_state \<Rightarrow> addr set" where
  "rootless st = {a. \<exists>s. map_of (nodes st) s = Some a \<and> parent (heap st a) = None}"

text \<open>A row for the examples: some label and module, and one well-formed parameter.\<close>

definition example_row :: "string \<Rightarrow> row" where
  "example_row x = \<lparr>process = x, label = ''L'', module = ''m'', params = ''k=v''\<rparr>"

text \<open>
  \<open>linked st c p\<close>: the node registered under the name \<open>c\<close> has a parent named \<open>p\<close>,
  or has no parent when \<open>p\<close> is empty.
\<close>

definition linked :: "build_state \<Rightarrow> string \<Rightarrow> string \<Rightarrow> bool" where
  "linked st c p \<longleftrightarrow>
     (\<exists>a. map_of (nodes st) c = Some a \<and>
          (if p = [] then parent (heap st a) = None
           else \<exists>pa. parent (heap st a) = Some pa \<and> name (heap st pa) = p))"

text \<open>
  \<open>linked_nodes st c a pa\<close>: the node \<open>a\<close> is the one registered under the name \<open>c\<close>,
  its parent reference is the node \<open>pa\<close>, and it is listed among the children of \<open>pa\<close>
  and of no other node.
\<close>

definition linked_nodes :: "build_state \<Rightarrow> string \<Rightarrow> addr \<Rightarrow> addr \<Rightarrow> bool" where
  "linked_nodes st c a pa \<longleftrightarrow>
     map_of (nodes st) c = Some a \<and> parent (heap st a) = Some pa \<and>
     a \<in> set (children (heap st pa)) \<and>
     (\<forall>q. q \<noteq> pa \<longrightarrow> a \<notin> set (children (heap st q)))"

text \<open>
  \<open>kwargs_ok st a\<close>: the node \<open>a\<close> has \<open>kwargs\<close>, its entry \<open>child\<close> is the node's own
  name, and when the node has a parent its entry \<open>parent\<close> is the parent's name.
\<close>

definition kwargs_ok :: "build_state \<Rightarrow> addr \<Rightarrow> bool" where
  "kwargs_ok st a \<longleftrightarrow>
     (\<exists>kw. kwargs (heap st a) = Some kw \<and>
           map_of kw ''child'' = Some (name (heap st a)) \<and>
           (\<forall>p. parent (heap st a) = Some p \<longrightarrow> map_of kw ''parent'' = Some (name (heap st p))))"

text \<open>The names that are the child segment of a relation row among \<open>rs\<close>.\<close>

definition child_names :: "row set \<Rightarrow> string set" where
  "child_names rs = {c. \<exists>r \<in> rs. relation_row r \<and> (\<exists>p. segments r = Inr (p, c))}"

text \<open>The children of the nodes of \<open>cs\<close>, in order.\<close>

definition next_level :: "heap \<Rightarrow> addr list \<Rightarrow> addr list" where
  "next_level h cs = concat (map (\<lambda>c. children (h c)) cs)"


section \<open>The parsers\<close>

lemma replace_from_filter: "replace_from [c] [] x = filter (\<lambda>d. d \<noteq> c) x"
  by (induction x) auto

lemma strip_process_filter: "strip_process x = filter (\<lambda>d. d \<noteq> CHR '' '') x"
  by (simp add: strip_process_def py_replace_def replace_from_filter)

lemma spaced_strip: "spaced x y \<Longrightarrow> strip_process y = strip_process x"
  by (induction rule: spaced.induct) (auto simp: strip_process_filter)

lemma split_from_none: "\<not> sublist sep x \<Longrightarrow> split_from sep cur x = [cur @ x]"
proof (induction x arbitrary: cur)
  case Nil
  then show ?case by simp
next
  case (Cons c cs)
  from Cons.prems have np: "\<not> prefix sep (c # cs)" and ns: "\<not> sublist sep cs"
    by (auto simp: sublist_Cons_right)
  then show ?case using Cons.IH[OF ns] by simp
qed

lemma split_from_first:
  "sep \<noteq> [] \<Longrightarrow> before_first sep a x \<Longrightarrow>
     split_from sep cur x = (cur @ a) # split_from sep [] (drop (length a + length sep) x)"
proof (induction a arbitrary: cur x)
  case Nil
  then obtain r where x: "x = sep @ r" by (auto simp: before_first_def)
  with Nil.prems(1) obtain c cs where c: "x = c # cs" by (cases sep) auto
  have "prefix sep x" using x by simp
  then show ?case using Nil.prems(1) c by simp
next
  case (Cons c a)
  from Cons.prems(2) obtain r where x: "x = c # (a @ sep @ r)"
    and least: "\<forall>u v. x = u @ sep @ v \<longrightarrow> Suc (length a) \<le> length u"
    by (auto simp: before_first_def)
  have np: "\<not> prefix sep x"
  proof
    assume "prefix sep x"
    then obtain v where "x = [] @ sep @ v" by (auto simp: prefix_def)
    with least show False by fastforce
  qed
  have bf: "before_first sep a (a @ sep @ r)"
    unfolding before_first_def
  proof (intro conjI allI impI)
    show "\<exists>r'. a @ sep @ r = a @ sep @ r'" by blast
  next
    fix u v assume "a @ sep @ r = u @ sep @ v"
    then have "x = (c # u) @ sep @ v" using x by simp
    with least have "Suc (length a) \<le> length (c # u)" by blast
    then show "length a \<le> length u" by simp
  qed
  show ?case using np x Cons.IH[OF Cons.prems(1) bf] by simp
qed

lemma first_exists: "sublist sep x \<Longrightarrow> \<exists>a. before_first sep a x"
proof -
  assume "sublist sep x"
  then obtain ps ss where "x = ps @ sep @ ss" by (auto simp: sublist_def)
  then have "\<exists>v. x = ps @ sep @ v" by blast
  from ex_has_least_nat[of "\<lambda>u. \<exists>v. x = u @ sep @ v" ps length, OF this]
  show ?thesis unfolding before_first_def by blast
qed

text \<open>
  C10. For every string that contains \<open>->\<close>, \<open>split_process\<close> returns a pair and raises
  nothing: the first component is the segment before the first \<open>->\<close>; the second is the
  rest of the string when the rest holds no further \<open>->\<close>, and otherwise the segment of
  the rest before its first \<open>->\<close>. Whatever follows a second \<open>->\<close> is ignored.
\<close>

theorem split_process_defined:
  assumes "sublist ''->'' x"
  shows "\<exists>a b. split_process x = Inr (a, b) \<and> before_first ''->'' a x \<and>
           (let rest = drop (length a + 2) x
            in if sublist ''->'' rest then before_first ''->'' b rest else b = rest)"
proof -
  from first_exists[OF assms] obtain a where a: "before_first ''->'' a x" by blast
  let ?rest = "drop (length a + 2) x"
  have s: "py_split x ''->'' = a # split_from ''->'' [] ?rest"
    using split_from_first[OF _ a, of "[]"] by (simp add: py_split_def)
  show ?thesis
  proof (cases "sublist ''->'' ?rest")
    case True
    from first_exists[OF True] obtain b where b: "before_first ''->'' b ?rest" by blast
    have "split_from ''->'' [] ?rest = b # split_from ''->'' [] (drop (length b + 2) ?rest)"
      using split_from_first[OF _ b, of "[]"] by simp
    with s have "split_process x = Inr (a, b)" by (simp add: split_process_def)
    with a b True show ?thesis by (auto simp: Let_def)
  next
    case False
    have "split_from ''->'' [] ?rest = [?rest]" using split_from_none[OF False, of "[]"] by simp
    with s have "split_process x = Inr (a, ?rest)" by (simp add: split_process_def)
    with a False show ?thesis by (auto simp: Let_def)
  qed
qed

theorem split_process_defined_witness:
  "sublist ''->'' ''A->B->C'' \<and>
   (\<exists>a b. split_process ''A->B->C'' = Inr (a, b) \<and> before_first ''->'' a ''A->B->C'' \<and>
      (let rest = drop (length a + 2) ''A->B->C''
       in if sublist ''->'' rest then before_first ''->'' b rest else b = rest))"
proof -
  have h: "sublist ''->'' ''A->B->C''" by (simp add: sublist_Cons_right)
  show ?thesis using h split_process_defined[OF h] by blast
qed

text \<open>
  C5. \<open>split_params\<close> applied to the empty string does not return an empty mapping: the
  empty string splits into one empty segment, that segment into one empty part, and the
  index \<open>i[1]\<close> raises \<open>IndexError\<close>.
\<close>

theorem split_params_empty: "split_params '''' = Inl IndexError"
  by (simp add: split_params_def py_split_def)

text \<open>
  C7, as the claim states it, fails for a whitespace character other than the space:
  a tab inserted after the delimiter stays in the child segment.
\<close>

theorem strip_process_tab_counterexample:
  "split_process (strip_process (''A->'' @ [CHR 0x09] @ ''B''))
     \<noteq> split_process (strip_process ''A->B'')"
  by (simp add: split_process_def py_split_def strip_process_def py_replace_def)

text \<open>
  C7, amended. Before a relation expression is split on \<open>->\<close>, every space character
  (and no other character) is removed from the whole string, so the parent and child
  parsed from an expression are those parsed from the expression with space characters
  inserted anywhere.
\<close>

theorem strip_process_spaces:
  assumes "spaced x y"
  shows "strip_process y = filter (\<lambda>c. c \<noteq> CHR '' '') y \<and>
         split_process (strip_process y) = split_process (strip_process x)"
  using spaced_strip[OF assms] by (simp add: strip_process_filter)

theorem strip_process_spaces_witness:
  "spaced ''A->B'' '' A - >  B'' \<and>
   strip_process '' A - >  B'' = filter (\<lambda>c. c \<noteq> CHR '' '') '' A - >  B'' \<and>
   split_process (strip_process '' A - >  B'') = split_process (strip_process ''A->B'')"
proof -
  have h: "spaced ''A->B'' '' A - >  B''"
    by (intro spaced.intros)
  show ?thesis using h strip_process_spaces[OF h] by blast
qed

section \<open>The tree library keeps the store well formed\<close>

lemma in_path_rtrancl:
  assumes a: "in_path h s nd = Some y"
  shows "y = ((s, nd) \<in> (parent_rel h)\<^sup>*)"
proof (rule in_path.raw_induct[where P = "\<lambda>h s nd y. y = ((s, nd) \<in> (parent_rel h)\<^sup>*)", OF _ a])
  fix f :: "heap \<Rightarrow> addr \<Rightarrow> addr \<Rightarrow> bool option" and h s nd y
  assume IH: "\<And>h s nd y. f h s nd = Some y \<Longrightarrow> y = ((s, nd) \<in> (parent_rel h)\<^sup>*)"
    and eq: "(if nd = s then Some True
              else case parent (h nd) of None \<Rightarrow> Some False | Some p \<Rightarrow> f h s p) = Some y"
  show "y = ((s, nd) \<in> (parent_rel h)\<^sup>*)"
  proof (cases "nd = s")
    case True
    with eq show ?thesis by auto
  next
    case ne: False
    show ?thesis
    proof (cases "parent (h nd)")
      case None
      with ne eq have y: "\<not> y" by auto
      have "(s, nd) \<notin> (parent_rel h)\<^sup>*"
      proof
        assume "(s, nd) \<in> (parent_rel h)\<^sup>*"
        then show False using ne None
          by (cases rule: rtranclE) (auto simp: parent_rel_def)
      qed
      with y show ?thesis by simp
    next
      case (Some p)
      with ne eq have "f h s p = Some y" by simp
      from IH[OF this] have y: "y = ((s, p) \<in> (parent_rel h)\<^sup>*)" .
      have pn: "(p, nd) \<in> parent_rel h" using Some by (simp add: parent_rel_def)
      have "(s, nd) \<in> (parent_rel h)\<^sup>* \<longleftrightarrow> (s, p) \<in> (parent_rel h)\<^sup>*"
      proof
        assume "(s, nd) \<in> (parent_rel h)\<^sup>*"
        then show "(s, p) \<in> (parent_rel h)\<^sup>*" using ne Some
          by (cases rule: rtranclE) (auto simp: parent_rel_def)
      next
        assume "(s, p) \<in> (parent_rel h)\<^sup>*"
        then show "(s, nd) \<in> (parent_rel h)\<^sup>*" using pn by (rule rtrancl_into_rtrancl)
      qed
      with y show ?thesis by simp
    qed
  qed
qed

lemma parent_rel_finite: "heap_ok n h \<Longrightarrow> finite (parent_rel h)"
proof -
  assume ok: "heap_ok n h"
  have "parent_rel h \<subseteq> {..<n} \<times> {..<n}"
  proof
    fix x assume "x \<in> parent_rel h"
    then obtain p c where x: "x = (p, c)" and pc: "parent (h c) = Some p"
      by (auto simp: parent_rel_def)
    from ok pc have "p < n" by (auto simp: heap_ok_def)
    moreover have "c < n"
    proof (rule ccontr)
      assume "\<not> c < n"
      then have "n \<le> c" by simp
      with ok have "parent (h c) = None" by (auto simp: heap_ok_def)
      with pc show False by simp
    qed
    ultimately show "x \<in> {..<n} \<times> {..<n}" using x by simp
  qed
  then show ?thesis by (rule finite_subset) simp
qed

lemma in_path_terminates: "heap_ok n h \<Longrightarrow> \<exists>b. in_path h s nd = Some b"
proof -
  assume ok: "heap_ok n h"
  then have "acyclic (parent_rel h)" by (simp add: heap_ok_def)
  with parent_rel_finite[OF ok] have "wf (parent_rel h)" by (rule finite_acyclic_wf)
  then show ?thesis
  proof (induction nd rule: wf_induct_rule)
    case (less nd)
    show ?case
    proof (cases "nd = s")
      case True
      then show ?thesis by (subst in_path.simps) auto
    next
      case ne: False
      show ?thesis
      proof (cases "parent (h nd)")
        case None
        with ne show ?thesis by (subst in_path.simps) auto
      next
        case (Some p)
        then have "(p, nd) \<in> parent_rel h" by (simp add: parent_rel_def)
        from less[OF this] obtain b where "in_path h s p = Some b" by blast
        with ne Some show ?thesis by (subst in_path.simps) simp
      qed
    qed
  qed
qed

lemma detach_frame:
  "detach h self = Inr h1 \<Longrightarrow>
     parent (h1 self) = None \<and> (\<forall>a. a \<noteq> self \<longrightarrow> parent (h1 a) = parent (h a)) \<and>
     (\<forall>a. name (h1 a) = name (h a) \<and> node_label (h1 a) = node_label (h a) \<and>
          node_module (h1 a) = node_module (h a) \<and> node_params (h1 a) = node_params (h a) \<and>
          kwargs (h1 a) = kwargs (h a))"
  by (auto simp: detach_def Let_def split: option.splits if_splits)

lemma attach_frame:
  "attach h self v = Inr h2 \<Longrightarrow>
     parent (h2 self) = Some v \<and> (\<forall>a. a \<noteq> self \<longrightarrow> parent (h2 a) = parent (h a)) \<and>
     (\<forall>a. name (h2 a) = name (h a) \<and> node_label (h2 a) = node_label (h a) \<and>
          node_module (h2 a) = node_module (h a) \<and> node_params (h2 a) = node_params (h a) \<and>
          kwargs (h2 a) = kwargs (h a))"
  by (auto simp: attach_def Let_def split: if_splits)

lemma set_parent_frame:
  assumes "set_parent h self v = Some (Inr h')"
  shows "parent (h' self) = Some v \<and> (\<forall>a. a \<noteq> self \<longrightarrow> parent (h' a) = parent (h a)) \<and>
     (\<forall>a. name (h' a) = name (h a) \<and> node_label (h' a) = node_label (h a) \<and>
          node_module (h' a) = node_module (h a) \<and> node_params (h' a) = node_params (h a) \<and>
          kwargs (h' a) = kwargs (h a))"
proof (cases "parent (h self) = Some v")
  case True
  with assms show ?thesis by (simp add: set_parent_def)
next
  case False
  with assms obtain h1 where d: "detach h self = Inr h1" and a: "attach h1 self v = Inr h'"
    by (auto simp: set_parent_def split: if_splits option.splits bool.splits sum.splits)
  from detach_frame[OF d] attach_frame[OF a] show ?thesis by simp
qed

lemma heap_ok_no_self_parent: "heap_ok n h \<Longrightarrow> parent (h a) \<noteq> Some a"
proof
  assume ok: "heap_ok n h" and "parent (h a) = Some a"
  then have "(a, a) \<in> parent_rel h" by (simp add: parent_rel_def)
  then have "(a, a) \<in> (parent_rel h)\<^sup>+" by blast
  moreover from ok have "acyclic (parent_rel h)" by (simp add: heap_ok_def)
  ultimately show False by (auto simp: acyclic_def)
qed

lemma detach_ok:
  assumes ok: "heap_ok n h"
  shows "\<exists>h1. detach h self = Inr h1 \<and> heap_ok n h1 \<and> parent_rel h1 \<subseteq> parent_rel h"
proof (cases "parent (h self)")
  case None
  with ok show ?thesis by (simp add: detach_def)
next
  case (Some p)
  from ok Some have mem: "self \<in> set (children (h p))" by (auto simp: heap_ok_def)
  from heap_ok_no_self_parent[OF ok, of self] Some have ps: "p \<noteq> self" by auto
  from ok Some have pn: "p < n" by (auto simp: heap_ok_def)
  define h1 where "h1 = h(p := (h p)\<lparr>children := filter (\<lambda>c. c \<noteq> self) (children (h p))\<rparr>,
                          self := (h self)\<lparr>parent := None\<rparr>)"
  have d: "detach h self = Inr h1"
    using Some mem ps by (simp add: detach_def Let_def h1_def)
  have par: "\<And>a. parent (h1 a) = (if a = self then None else parent (h a))"
    by (simp add: h1_def)
  have chi: "\<And>a. children (h1 a) = (if a = p then filter (\<lambda>c. c \<noteq> self) (children (h p)) else children (h a))"
    using ps by (simp add: h1_def)
  have sub: "parent_rel h1 \<subseteq> parent_rel h"
    by (auto simp: parent_rel_def par split: if_splits)
  have i1: "\<forall>a. n \<le> a \<longrightarrow> parent (h1 a) = None \<and> children (h1 a) = []"
    using ok pn by (auto simp: heap_ok_def par chi)
  have i2: "\<forall>a q. parent (h1 a) = Some q \<longrightarrow> q < n"
    using ok by (auto simp: heap_ok_def par split: if_splits)
  have i3: "\<forall>a c. c \<in> set (children (h1 a)) \<longleftrightarrow> parent (h1 c) = Some a"
    using ok Some by (auto simp: heap_ok_def par chi)
  have i4: "\<forall>a. distinct (children (h1 a))"
    using ok by (auto simp: heap_ok_def chi)
  have i5: "acyclic (parent_rel h1)"
    using ok sub by (auto simp: heap_ok_def intro: acyclic_subset)
  from i1 i2 i3 i4 i5 have "heap_ok n h1" unfolding heap_ok_def by blast
  with d sub show ?thesis by blast
qed

lemma attach_ok:
  assumes ok: "heap_ok n h" and root: "parent (h self) = None" and sn: "self < n"
    and vn: "v < n" and vs: "v \<noteq> self" and nl: "(self, v) \<notin> (parent_rel h)\<^sup>*"
  shows "\<exists>h2. attach h self v = Inr h2 \<and> heap_ok n h2"
proof -
  from ok root have nmem: "self \<notin> set (children (h v))" by (auto simp: heap_ok_def)
  define h2 where "h2 = h(v := (h v)\<lparr>children := children (h v) @ [self]\<rparr>,
                          self := (h self)\<lparr>parent := Some v\<rparr>)"
  have a: "attach h self v = Inr h2"
    using nmem vs by (simp add: attach_def Let_def h2_def)
  have par: "\<And>a. parent (h2 a) = (if a = self then Some v else parent (h a))"
    by (simp add: h2_def)
  have chi: "\<And>a. children (h2 a) = (if a = v then children (h v) @ [self] else children (h a))"
    using vs by (simp add: h2_def)
  have rel: "parent_rel h2 = insert (v, self) (parent_rel h)"
    using root by (auto simp: parent_rel_def par split: if_splits)
  have i1: "\<forall>a. n \<le> a \<longrightarrow> parent (h2 a) = None \<and> children (h2 a) = []"
    using ok sn vn by (auto simp: heap_ok_def par chi)
  have i2: "\<forall>a q. parent (h2 a) = Some q \<longrightarrow> q < n"
    using ok vn by (auto simp: heap_ok_def par split: if_splits)
  have i3: "\<forall>a c. c \<in> set (children (h2 a)) \<longleftrightarrow> parent (h2 c) = Some a"
    using ok root by (auto simp: heap_ok_def par chi)
  have i4: "\<forall>a. distinct (children (h2 a))"
    using ok nmem by (auto simp: heap_ok_def chi)
  have i5: "acyclic (parent_rel h2)"
    using ok nl by (simp add: heap_ok_def rel)
  from i1 i2 i3 i4 i5 have "heap_ok n h2" unfolding heap_ok_def by blast
  with a show ?thesis by blast
qed

lemma set_parent_ok:
  assumes ok: "heap_ok n h" and sn: "self < n" and vn: "v < n"
  shows "\<exists>res. set_parent h self v = Some res \<and> res \<noteq> Inl AssertionError \<and>
           (\<forall>h'. res = Inr h' \<longrightarrow> heap_ok n h')"
proof (cases "parent (h self) = Some v")
  case True
  with ok show ?thesis by (simp add: set_parent_def)
next
  case np: False
  show ?thesis
  proof (cases "v = self")
    case True
    with np show ?thesis by (simp add: set_parent_def)
  next
    case vs: False
    from in_path_terminates[OF ok] obtain b where b: "in_path h self v = Some b" by blast
    show ?thesis
    proof (cases b)
      case True
      with np vs b show ?thesis by (simp add: set_parent_def)
    next
      case False
      with b in_path_rtrancl[OF b] have nl: "(self, v) \<notin> (parent_rel h)\<^sup>*" by simp
      from detach_ok[OF ok] obtain h1 where d: "detach h self = Inr h1"
        and ok1: "heap_ok n h1" and sub: "parent_rel h1 \<subseteq> parent_rel h" by blast
      from detach_frame[OF d] have root: "parent (h1 self) = None" by simp
      from sub have "(parent_rel h1)\<^sup>* \<subseteq> (parent_rel h)\<^sup>*" by (rule rtrancl_mono)
      with nl have nl1: "(self, v) \<notin> (parent_rel h1)\<^sup>*" by blast
      from attach_ok[OF ok1 root sn vn vs nl1] obtain h2 where
        a: "attach h1 self v = Inr h2" and ok2: "heap_ok n h2" by blast
      from np vs b False d a have "set_parent h self v = Some (Inr h2)"
        by (simp add: set_parent_def)
      with ok2 show ?thesis by simp
    qed
  qed
qed

lemma heap_ok_fresh:
  assumes ok: "heap_ok n h"
  shows "heap_ok (Suc n) (h(n := bare nm))"
proof -
  let ?h = "h(n := bare nm)"
  from ok have pn: "parent (h n) = None" and cn: "children (h n) = []"
    by (auto simp: heap_ok_def)
  have par: "\<And>a. parent (?h a) = parent (h a)" using pn by (simp add: bare_def)
  have chi: "\<And>a. children (?h a) = children (h a)" using cn by (simp add: bare_def)
  have rel: "parent_rel ?h = parent_rel h" unfolding parent_rel_def par ..
  show ?thesis using ok unfolding heap_ok_def par chi rel
    by (auto simp: less_Suc_eq)
qed

lemma register_new_ok:
  assumes ok: "state_ok st"
  shows "state_ok (st\<lparr>heap := (heap st)(fresh st := bare nm), fresh := Suc (fresh st),
                      nodes := AList.update nm (fresh st) (nodes st)\<rparr>)"
proof -
  from ok have h: "heap_ok (fresh st) (heap st)" and r: "reg_ok st"
    by (simp_all add: state_ok_def)
  have "reg_ok (st\<lparr>heap := (heap st)(fresh st := bare nm), fresh := Suc (fresh st),
                      nodes := AList.update nm (fresh st) (nodes st)\<rparr>)"
  proof -
    from r have lt: "\<And>s a. map_of (nodes st) s = Some a \<Longrightarrow> a < fresh st \<and> name (heap st a) = s"
      unfolding reg_ok_def by blast
    have ne: "\<And>s a. map_of (nodes st) s = Some a \<Longrightarrow> a \<noteq> fresh st"
      using lt by fastforce
    from r have d: "distinct (map fst (nodes st))" by (simp add: reg_ok_def)
    show ?thesis
      unfolding reg_ok_def
      using d ne lt by (simp add: distinct_update update_conv' bare_def less_Suc_eq)
  qed
  with heap_ok_fresh[OF h] show ?thesis by (simp add: state_ok_def)
qed

lemma get_node_ok:
  assumes ok: "state_ok st" and g: "get_node st nm = (st', a)"
  shows "state_ok st' \<and> a < fresh st' \<and> map_of (nodes st') nm = Some a \<and> fresh st \<le> fresh st'"
proof (cases "map_of (nodes st) nm")
  case None
  with g have st': "st' = st\<lparr>heap := (heap st)(fresh st := bare nm), fresh := Suc (fresh st),
                      nodes := AList.update nm (fresh st) (nodes st)\<rparr>" and a: "a = fresh st"
    by (auto simp: get_node_def new_node_def)
  from register_new_ok[OF ok, of nm] st' a show ?thesis by (simp add: update_conv')
next
  case (Some b)
  with g have "st' = st" "a = b" by (auto simp: get_node_def)
  with ok Some show ?thesis by (auto simp: state_ok_def reg_ok_def)
qed

lemma get_node_keeps:
  assumes ok: "state_ok st" and g: "get_node st nm = (st', a)" and m: "map_of (nodes st) s = Some b"
  shows "map_of (nodes st') s = Some b"
proof (cases "map_of (nodes st) nm")
  case None
  with g m show ?thesis by (auto simp: get_node_def new_node_def update_conv')
next
  case (Some c)
  with g m show ?thesis by (auto simp: get_node_def)
qed

lemma pass1_step_ok:
  assumes ok: "state_ok st"
  shows "\<exists>res. pass1_step st r = Some res \<and> (\<forall>st'. res = Inr st' \<longrightarrow> state_ok st')"
proof (cases "process r = [] \<or> \<not> sublist ''->'' (process r)")
  case True
  with ok show ?thesis by (auto simp: pass1_step_def)
next
  case rel: False
  show ?thesis
  proof (cases "split_process (strip_process (process r))")
    case (Inl e)
    with rel show ?thesis by (auto simp: pass1_step_def)
  next
    case (Inr p)
    obtain s1 s2 where p: "p = (s1, s2)" by (cases p)
    show ?thesis
    proof (cases "s1 = []")
      case True
      with rel Inr p register_new_ok[OF ok, of s2] show ?thesis
        by (simp add: pass1_step_def new_node_def)
    next
      case ne: False
      obtain st1 np where g1: "get_node st s1 = (st1, np)" by (cases "get_node st s1")
      obtain st2 nc where g2: "get_node st1 s2 = (st2, nc)" by (cases "get_node st1 s2")
      from get_node_ok[OF ok g1] have ok1: "state_ok st1" and np1: "np < fresh st1" by simp_all
      from get_node_ok[OF ok1 g2] have ok2: "state_ok st2" and nc2: "nc < fresh st2"
        and le: "fresh st1 \<le> fresh st2" by simp_all
      from np1 le have np2: "np < fresh st2" by simp
      from ok2 have h2: "heap_ok (fresh st2) (heap st2)" and r2: "reg_ok st2"
        by (simp_all add: state_ok_def)
      from set_parent_ok[OF h2 nc2 np2] obtain res where
        sp: "set_parent (heap st2) nc np = Some res"
        and okr: "\<forall>h'. res = Inr h' \<longrightarrow> heap_ok (fresh st2) h'" by blast
      show ?thesis
      proof (cases res)
        case (Inl e)
        with rel Inr p ne g1 g2 sp show ?thesis by (simp add: pass1_step_def)
      next
        case (Inr h')
        with okr have hk: "heap_ok (fresh st2) h'" by simp
        from set_parent_frame[of "heap st2" nc np h'] sp Inr
        have nm: "\<forall>a. name (h' a) = name (heap st2 a)" by simp
        have "state_ok (st2\<lparr>heap := h'\<rparr>)"
          using hk r2 nm by (simp add: state_ok_def reg_ok_def)
        with rel \<open>split_process (strip_process (process r)) = Inr p\<close> p ne g1 g2 sp Inr
        show ?thesis by (simp add: pass1_step_def)
      qed
    qed
  qed
qed

lemma pass1_ok:
  "state_ok st \<Longrightarrow> \<exists>res. pass1 st rs = Some res \<and> (\<forall>st'. res = Inr st' \<longrightarrow> state_ok st')"
proof (induction rs arbitrary: st)
  case Nil
  then show ?case by simp
next
  case (Cons r rs)
  from pass1_step_ok[OF Cons.prems, of r] obtain res where
    s: "pass1_step st r = Some res" and k: "\<forall>st'. res = Inr st' \<longrightarrow> state_ok st'" by blast
  show ?case
  proof (cases res)
    case (Inl e)
    with s show ?thesis by simp
  next
    case (Inr st1)
    with k have "state_ok st1" by simp
    from Cons.IH[OF this] s Inr show ?thesis by simp
  qed
qed

lemma pass2_step_ok:
  assumes ok: "state_ok st" and s: "pass2_step st r = Inr st'"
  shows "state_ok st'"
proof -
  from s obtain s1 s2 nd kw where m: "map_of (nodes st) s2 = Some nd"
    and st': "st' = st\<lparr>heap := set_node (heap st) nd (label r) (module r) (params r) kw,
                        nodes := AList.update s2 nd (nodes st)\<rparr>"
    by (auto simp: pass2_step_def Let_def split: sum.splits option.splits prod.splits)
  let ?h = "set_node (heap st) nd (label r) (module r) (params r) kw"
  have par: "\<And>a. parent (?h a) = parent (heap st a)" by (simp add: set_node_def)
  have chi: "\<And>a. children (?h a) = children (heap st a)" by (simp add: set_node_def)
  have nam: "\<And>a. name (?h a) = name (heap st a)" by (simp add: set_node_def)
  have rel: "parent_rel ?h = parent_rel (heap st)" unfolding parent_rel_def par ..
  from ok have "heap_ok (fresh st) ?h" unfolding state_ok_def heap_ok_def par chi rel by blast
  moreover have "reg_ok st'"
    using ok m unfolding st' state_ok_def reg_ok_def
    by (auto simp: distinct_update update_conv' nam)
  ultimately show ?thesis by (simp add: state_ok_def st')
qed

lemma pass2_ok: "state_ok st \<Longrightarrow> pass2 st rs = Inr st' \<Longrightarrow> state_ok st'"
proof (induction rs arbitrary: st)
  case Nil
  then show ?case by simp
next
  case (Cons r rs)
  from Cons.prems(2) obtain st1 where s: "pass2_step st r = Inr st1" and p: "pass2 st1 rs = Inr st'"
    by (auto split: sum.splits)
  from Cons.IH[OF pass2_step_ok[OF Cons.prems(1) s] p] show ?case .
qed

lemma init_ok: "state_ok init"
  by (simp add: state_ok_def heap_ok_def reg_ok_def init_def bare_def parent_rel_def acyclic_def)

lemma build_nodes_ok:
  "\<exists>res. build_nodes df = Some res \<and> (\<forall>st. res = Inr st \<longrightarrow> state_ok st)"
proof -
  from pass1_ok[OF init_ok, of df] obtain res where
    p: "pass1 init df = Some res" and k: "\<forall>st'. res = Inr st' \<longrightarrow> state_ok st'" by blast
  show ?thesis
  proof (cases res)
    case (Inl e)
    with p show ?thesis by (simp add: build_nodes_def)
  next
    case (Inr st1)
    with k have "state_ok st1" by simp
    with p Inr show ?thesis by (auto simp: build_nodes_def dest: pass2_ok)
  qed
qed

lemma build_tree_terminates: "\<exists>res. build_tree df = Some res"
  using build_nodes_ok[of df] by (auto simp: build_tree_def split: sum.splits)

section \<open>The root check\<close>

lemma roots_rootless:
  assumes r: "reg_ok st"
  shows "set (roots st) = rootless st \<and> distinct (roots st)"
proof -
  from r have d: "distinct (map fst (nodes st))" by (simp add: reg_ok_def)
  from r have nm: "\<And>s a. (s, a) \<in> set (nodes st) \<Longrightarrow> name (heap st a) = s"
    using d by (auto simp: reg_ok_def)
  have inj: "inj_on snd (set (nodes st))"
  proof (rule inj_onI)
    fix x y assume x: "x \<in> set (nodes st)" and y: "y \<in> set (nodes st)" and e: "snd x = snd y"
    from nm[of "fst x" "snd x"] x have "name (heap st (snd x)) = fst x" by simp
    moreover from nm[of "fst y" "snd y"] y have "name (heap st (snd y)) = fst y" by simp
    ultimately show "x = y" using e by (simp add: prod_eq_iff)
  qed
  then have "distinct (map snd (nodes st))"
    using d by (simp add: distinct_map)
  then have dr: "distinct (roots st)"
    unfolding roots_def by (simp add: distinct_map_filter)
  have "set (roots st) = rootless st"
    using d by (auto simp: roots_def rootless_def image_iff)
  with dr show ?thesis by simp
qed


lemma pick_root_cases:
  assumes r: "reg_ok st"
  shows "(rootless st = {} \<longrightarrow> pick_root st = Inl IndexError) \<and>
         (\<forall>t. rootless st = {t} \<longrightarrow> pick_root st = Inr t) \<and>
         ((\<exists>a b. a \<in> rootless st \<and> b \<in> rootless st \<and> a \<noteq> b) \<longrightarrow> pick_root st = Inl ValueError)"
proof -
  from roots_rootless[OF r] have s: "set (roots st) = rootless st" and d: "distinct (roots st)"
    by simp_all
  have c0: "rootless st = {} \<longrightarrow> pick_root st = Inl IndexError"
    using s by (auto simp: pick_root_def)
  have c1: "\<forall>t. rootless st = {t} \<longrightarrow> pick_root st = Inr t"
  proof (intro allI impI)
    fix t assume "rootless st = {t}"
    with s have st: "set (roots st) = {t}" by simp
    with d have "length (roots st) = 1" using distinct_card[OF d] by simp
    with st have "roots st = [t]" by (cases "roots st") auto
    then show "pick_root st = Inr t" by (simp add: pick_root_def)
  qed
  have c2: "(\<exists>a b. a \<in> rootless st \<and> b \<in> rootless st \<and> a \<noteq> b) \<longrightarrow> pick_root st = Inl ValueError"
  proof
    assume "\<exists>a b. a \<in> rootless st \<and> b \<in> rootless st \<and> a \<noteq> b"
    then obtain a b where "a \<in> set (roots st)" "b \<in> set (roots st)" "a \<noteq> b" using s by auto
    then have "1 < length (roots st)"
      by (cases "roots st"; cases "tl (roots st)") auto
    then show "pick_root st = Inl ValueError" by (simp add: pick_root_def)
  qed
  from c0 c1 c2 show ?thesis by blast
qed

text \<open>
  C1. After both passes of \<open>build_tree\<close> the nodes of the dictionary that have no parent
  are collected and counted: when there is exactly one, it is returned as the tree; when
  there is none, the build raises an error (\<open>IndexError\<close>, from \<open>roots[0]\<close>); when there
  are two or more, it raises the multiple-roots error (\<open>ValueError\<close>).
\<close>

theorem root_validation:
  assumes "build_nodes df = Some (Inr st)"
  shows "(rootless st = {} \<longrightarrow> build_tree df = Some (Inl IndexError)) \<and>
         (\<forall>t. rootless st = {t} \<longrightarrow> build_tree df = Some (Inr (t, st))) \<and>
         ((\<exists>a b. a \<in> rootless st \<and> b \<in> rootless st \<and> a \<noteq> b) \<longrightarrow>
            build_tree df = Some (Inl ValueError))"
proof -
  from build_nodes_ok[of df] assms have "state_ok st" by auto
  then have "reg_ok st" by (simp add: state_ok_def)
  from pick_root_cases[OF this] assms show ?thesis
    by (auto simp: build_tree_def)
qed

lemma build_nodes_rootless:
  assumes "build_nodes df = Some (Inr st)"
  shows "rootless st = set (roots st)"
proof -
  from build_nodes_ok[of df] assms have "state_ok st" by auto
  then have "reg_ok st" by (simp add: state_ok_def)
  from roots_rootless[OF this] show ?thesis by simp
qed

lemma one_root_build:
  "case build_nodes (map example_row [''-> A'', ''A -> B'']) of
     Some (Inr st) \<Rightarrow> roots st = [0]
   | _ \<Rightarrow> False"
  by code_simp

lemma two_roots_build:
  "case build_nodes (map example_row [''A -> B'', ''X -> B'']) of
     Some (Inr st) \<Rightarrow> roots st = [0, 2]
   | _ \<Rightarrow> False"
  by code_simp

theorem root_validation_witness:
  "(\<exists>st. build_nodes (map example_row [''-> A'', ''A -> B'']) = Some (Inr st) \<and>
         rootless st = {0} \<and>
         build_tree (map example_row [''-> A'', ''A -> B'']) = Some (Inr (0, st))) \<and>
   (\<exists>st. build_nodes [] = Some (Inr st) \<and> rootless st = {} \<and>
         build_tree [] = Some (Inl IndexError)) \<and>
   (\<exists>st. build_nodes (map example_row [''A -> B'', ''X -> B'']) = Some (Inr st) \<and>
         0 \<in> rootless st \<and> 2 \<in> rootless st \<and>
         build_tree (map example_row [''A -> B'', ''X -> B'']) = Some (Inl ValueError))"
proof (intro conjI)
  let ?df = "map example_row [''-> A'', ''A -> B'']"
  from one_root_build obtain st where b: "build_nodes ?df = Some (Inr st)"
    and n: "roots st = [0]"
    by (cases "build_nodes ?df") (simp_all split: sum.splits)
  from build_nodes_rootless[OF b] n have r: "rootless st = {0}" by simp
  from root_validation[OF b] r have "build_tree ?df = Some (Inr (0, st))" by blast
  with b r show "\<exists>st. build_nodes ?df = Some (Inr st) \<and> rootless st = {0} \<and>
         build_tree ?df = Some (Inr (0, st))"
    by blast
next
  have b: "build_nodes [] = Some (Inr init)" by (simp add: build_nodes_def)
  have r: "rootless init = {}" by (simp add: rootless_def init_def)
  from root_validation[OF b] r have "build_tree [] = Some (Inl IndexError)" by blast
  with b r show "\<exists>st. build_nodes [] = Some (Inr st) \<and> rootless st = {} \<and>
         build_tree [] = Some (Inl IndexError)"
    by blast
next
  let ?df = "map example_row [''A -> B'', ''X -> B'']"
  from two_roots_build obtain st where b: "build_nodes ?df = Some (Inr st)"
    and n: "roots st = [0, 2]"
    by (cases "build_nodes ?df") (simp_all split: sum.splits)
  from build_nodes_rootless[OF b] n have r: "0 \<in> rootless st" "2 \<in> rootless st" by simp_all
  then have "\<exists>a b. a \<in> rootless st \<and> b \<in> rootless st \<and> a \<noteq> b"
    by (intro exI[of _ 0] exI[of _ 2]) simp
  with root_validation[OF b] have "build_tree ?df = Some (Inl ValueError)" by blast
  with b r show "\<exists>st. build_nodes ?df = Some (Inr st) \<and> 0 \<in> rootless st \<and> 2 \<in> rootless st \<and>
         build_tree ?df = Some (Inl ValueError)"
    by blast
qed

section \<open>Root declarations\<close>

lemma rebind_run:
  "case pass1 init [example_row ''R -> A''] of
     Some (Inr st) \<Rightarrow>
       map_of (nodes st) ''A'' = Some 1 \<and> parent (heap st 1) = Some 0 \<and>
       children (heap st 0) = [1] \<and> fresh st = 2 \<and>
       (case pass1_step st (example_row ''-> A'') of
          Some (Inr st') \<Rightarrow>
            map_of (nodes st') ''A'' = Some 2 \<and> parent (heap st' 2) = None \<and>
            parent (heap st' 1) = Some 0 \<and> children (heap st' 0) = [1]
        | _ \<Rightarrow> False)
   | _ \<Rightarrow> False"
  by code_simp

text \<open>
  C3, as the claim states it, fails: after \<open>R -> A\<close> the name \<open>A\<close> is registered to
  the node at address 1, a child of \<open>R\<close>. The row \<open>-> A\<close> registers \<open>A\<close> to a new node,
  and the links of the node at address 1 are not discarded: its parent is still \<open>R\<close> and
  it is still among the children of \<open>R\<close>.
\<close>

theorem root_declaration_keeps_links_counterexample:
  "\<exists>st st'. pass1 init [example_row ''R -> A''] = Some (Inr st) \<and>
      map_of (nodes st) ''A'' = Some 1 \<and> parent (heap st 1) = Some 0 \<and>
      1 \<in> set (children (heap st 0)) \<and>
      pass1_step st (example_row ''-> A'') = Some (Inr st') \<and>
      map_of (nodes st') ''A'' = Some 2 \<and>
      parent (heap st' 1) = Some 0 \<and> 1 \<in> set (children (heap st' 0))"
proof -
  from rebind_run obtain st where p: "pass1 init [example_row ''R -> A''] = Some (Inr st)"
    by (cases "pass1 init [example_row ''R -> A'']") (auto split: sum.splits)
  with rebind_run have f: "map_of (nodes st) ''A'' = Some 1" "parent (heap st 1) = Some 0"
    "children (heap st 0) = [1]"
    and c: "case pass1_step st (example_row ''-> A'') of
          Some (Inr st') \<Rightarrow>
            map_of (nodes st') ''A'' = Some 2 \<and> parent (heap st' 2) = None \<and>
            parent (heap st' 1) = Some 0 \<and> children (heap st' 0) = [1]
        | _ \<Rightarrow> False"
    by simp_all
  from c obtain st' where s: "pass1_step st (example_row ''-> A'') = Some (Inr st')"
    by (cases "pass1_step st (example_row ''-> A'')") (auto split: sum.splits)
  with c have g: "map_of (nodes st') ''A'' = Some 2" "parent (heap st' 1) = Some 0"
    "children (heap st' 0) = [1]" by simp_all
  from p f s g show ?thesis by auto
qed

text \<open>
  C3, amended. When the first loop meets a relation row whose parent segment is empty
  (such as \<open>-> A\<close>), it registers the child name to a new standalone node: an address
  that was not in use (no name was registered to it and no node had it as parent or
  child), holding a node with that name, no parent and no children. The dictionary entry
  of the name is overwritten, whatever node it held before; the other names and every
  other node of the store are left as they were. In particular the node that the name
  held before is not changed: it keeps its parent and stays among the children of that
  parent, and is only no longer reached through the name.
\<close>

theorem root_declaration_rebinds:
  assumes "pass1 init pre = Some (Inr st)"
    and "relation_row r" and "segments r = Inr ([], s2)"
  shows "\<exists>st'. pass1_step st r = Some (Inr st') \<and>
           map_of (nodes st') s2 = Some (fresh st) \<and>
           heap st' (fresh st) = bare s2 \<and>
           fresh st' = Suc (fresh st) \<and>
           (\<forall>s. map_of (nodes st) s \<noteq> Some (fresh st)) \<and>
           (\<forall>a. parent (heap st a) \<noteq> Some (fresh st) \<and> fresh st \<notin> set (children (heap st a))) \<and>
           (\<forall>s. s \<noteq> s2 \<longrightarrow> map_of (nodes st') s = map_of (nodes st) s) \<and>
           (\<forall>a. a \<noteq> fresh st \<longrightarrow> heap st' a = heap st a) \<and>
           (\<forall>b. map_of (nodes st) s2 = Some b \<longrightarrow>
                b \<noteq> fresh st \<and> heap st' b = heap st b \<and>
                (\<forall>p. parent (heap st b) = Some p \<longrightarrow>
                     parent (heap st' b) = Some p \<and> b \<in> set (children (heap st' p))))"
proof -
  from pass1_ok[OF init_ok, of pre] assms(1) have ok: "state_ok st" by auto
  then have hk: "heap_ok (fresh st) (heap st)" and rk: "reg_ok st" by (simp_all add: state_ok_def)
  let ?st' = "st\<lparr>heap := (heap st)(fresh st := bare s2), fresh := Suc (fresh st),
                  nodes := AList.update s2 (fresh st) (nodes st)\<rparr>"
  from assms(2,3) have step: "pass1_step st r = Some (Inr ?st')"
    by (simp add: pass1_step_def relation_row_def segments_def new_node_def)
  have lt: "\<And>s a. map_of (nodes st) s = Some a \<Longrightarrow> a < fresh st"
    using rk unfolding reg_ok_def by blast
  have c1: "\<forall>s. map_of (nodes st) s \<noteq> Some (fresh st)"
    using lt by fastforce
  have plt: "\<And>a p. parent (heap st a) = Some p \<Longrightarrow> p < fresh st"
    using hk unfolding heap_ok_def by blast
  have pf: "parent (heap st (fresh st)) = None" using hk by (simp add: heap_ok_def)
  have mem: "\<And>a c. c \<in> set (children (heap st a)) \<Longrightarrow> parent (heap st c) = Some a"
    using hk unfolding heap_ok_def by blast
  have mem': "\<And>a c. parent (heap st c) = Some a \<Longrightarrow> c \<in> set (children (heap st a))"
    using hk unfolding heap_ok_def by blast
  have c2: "\<forall>a. parent (heap st a) \<noteq> Some (fresh st) \<and> fresh st \<notin> set (children (heap st a))"
  proof (intro allI conjI)
    fix a
    show "parent (heap st a) \<noteq> Some (fresh st)" using plt[of a "fresh st"] by auto
    show "fresh st \<notin> set (children (heap st a))" using mem[of "fresh st" a] pf by auto
  qed
  have c3: "\<forall>b. map_of (nodes st) s2 = Some b \<longrightarrow>
                b \<noteq> fresh st \<and> heap ?st' b = heap st b \<and>
                (\<forall>p. parent (heap st b) = Some p \<longrightarrow>
                     parent (heap ?st' b) = Some p \<and> b \<in> set (children (heap ?st' p)))"
  proof (intro allI impI)
    fix b assume m: "map_of (nodes st) s2 = Some b"
    from lt[OF m] have ne: "b \<noteq> fresh st" by simp
    have "\<forall>p. parent (heap st b) = Some p \<longrightarrow>
             parent (heap ?st' b) = Some p \<and> b \<in> set (children (heap ?st' p))"
    proof (intro allI impI)
      fix p assume pp: "parent (heap st b) = Some p"
      from plt[OF pp] have "p \<noteq> fresh st" by simp
      with ne pp mem'[OF pp]
      show "parent (heap ?st' b) = Some p \<and> b \<in> set (children (heap ?st' p))" by simp
    qed
    with ne show "b \<noteq> fresh st \<and> heap ?st' b = heap st b \<and>
                (\<forall>p. parent (heap st b) = Some p \<longrightarrow>
                     parent (heap ?st' b) = Some p \<and> b \<in> set (children (heap ?st' p)))"
      by simp
  qed
  have c4: "map_of (nodes ?st') s2 = Some (fresh st) \<and> heap ?st' (fresh st) = bare s2 \<and>
      fresh ?st' = Suc (fresh st) \<and>
      (\<forall>s. s \<noteq> s2 \<longrightarrow> map_of (nodes ?st') s = map_of (nodes st) s) \<and>
      (\<forall>a. a \<noteq> fresh st \<longrightarrow> heap ?st' a = heap st a)"
    by (simp add: update_conv')
  from step c1 c2 c3 c4 show ?thesis by blast
qed

theorem root_declaration_rebinds_witness:
  "\<exists>st. pass1 init [example_row ''R -> A''] = Some (Inr st) \<and>
      relation_row (example_row ''-> A'') \<and>
      segments (example_row ''-> A'') = Inr ([], ''A'') \<and>
      map_of (nodes st) ''A'' = Some 1 \<and> parent (heap st 1) = Some 0 \<and>
      (\<exists>st'. pass1_step st (example_row ''-> A'') = Some (Inr st') \<and>
           map_of (nodes st') ''A'' = Some (fresh st) \<and>
           heap st' (fresh st) = bare ''A'' \<and>
           fresh st \<noteq> 1 \<and> heap st' 1 = heap st 1 \<and>
           parent (heap st' 1) = Some 0 \<and> 1 \<in> set (children (heap st' 0)))"
proof -
  from rebind_run obtain st where p: "pass1 init [example_row ''R -> A''] = Some (Inr st)"
    by (cases "pass1 init [example_row ''R -> A'']") (auto split: sum.splits)
  with rebind_run have f: "map_of (nodes st) ''A'' = Some 1" "parent (heap st 1) = Some 0"
    by simp_all
  have h2: "relation_row (example_row ''-> A'')" by code_simp
  have h3: "segments (example_row ''-> A'') = Inr ([], ''A'')" by code_simp
  from root_declaration_rebinds[OF p h2 h3] obtain st' where
    s: "pass1_step st (example_row ''-> A'') = Some (Inr st')"
    and a: "map_of (nodes st') ''A'' = Some (fresh st)" "heap st' (fresh st) = bare ''A''"
    and b: "\<forall>b. map_of (nodes st) ''A'' = Some b \<longrightarrow>
                b \<noteq> fresh st \<and> heap st' b = heap st b \<and>
                (\<forall>p. parent (heap st b) = Some p \<longrightarrow>
                     parent (heap st' b) = Some p \<and> b \<in> set (children (heap st' p)))"
    by blast
  from b f have "1 \<noteq> fresh st" "heap st' 1 = heap st 1" "parent (heap st' 1) = Some 0"
    "1 \<in> set (children (heap st' 0))" by auto
  with p h2 h3 f s a show ?thesis by auto
qed

lemma stale_build:
  "case build_tree (map example_row [''-> R'', ''R -> A'', ''A -> C'', ''-> A'', ''R -> A'']) of
     Some (Inr (t, st)) \<Rightarrow>
       t = 0 \<and> roots st = [0] \<and> traverse_tree (heap st) 0 = Some [0, 1, 3, 2] \<and>
       children (heap st 0) = [1, 3] \<and> parent (heap st 1) = Some 0 \<and>
       name (heap st 1) = ''A'' \<and> map snd (nodes st) = [0, 3, 2] \<and>
       node_label (heap st 1) = None \<and> node_module (heap st 1) = None \<and>
       node_params (heap st 1) = None \<and> kwargs (heap st 1) = None
   | _ \<Rightarrow> False"
  by code_simp

text \<open>
  C9. On the rows \<open>-> R\<close>, \<open>R -> A\<close>, \<open>A -> C\<close>, \<open>-> A\<close>, \<open>R -> A\<close> the build returns
  a tree with the single root \<open>R\<close> (address 0), and the node at address 1, the first
  \<open>A\<close>, is still a child of the root and is visited by the traversal, but it is no longer
  in the dictionary and the second loop never gave it a label, module, params or kwargs.
\<close>

theorem unpopulated_node_reachable:
  "\<exists>st. build_tree (map example_row [''-> R'', ''R -> A'', ''A -> C'', ''-> A'', ''R -> A''])
           = Some (Inr (0, st)) \<and>
        roots st = [0] \<and>
        traverse_tree (heap st) 0 = Some [0, 1, 3, 2] \<and>
        1 \<in> set (children (heap st 0)) \<and> parent (heap st 1) = Some 0 \<and>
        1 \<notin> snd ` set (nodes st) \<and>
        node_label (heap st 1) = None \<and> node_module (heap st 1) = None \<and>
        node_params (heap st 1) = None \<and> kwargs (heap st 1) = None"
proof -
  let ?df = "map example_row [''-> R'', ''R -> A'', ''A -> C'', ''-> A'', ''R -> A'']"
  from stale_build obtain t st where b: "build_tree ?df = Some (Inr (t, st))"
    by (cases "build_tree ?df") (auto split: sum.splits)
  with stale_build have f: "t = 0" "roots st = [0]" "traverse_tree (heap st) 0 = Some [0, 1, 3, 2]"
    "children (heap st 0) = [1, 3]" "parent (heap st 1) = Some 0" "map snd (nodes st) = [0, 3, 2]"
    "node_label (heap st 1) = None" "node_module (heap st 1) = None"
    "node_params (heap st 1) = None" "kwargs (heap st 1) = None"
    by simp_all
  have "snd ` set (nodes st) = set (map snd (nodes st))" by simp
  with f have "1 \<notin> snd ` set (nodes st)" by simp
  with b f show ?thesis by auto
qed

lemma stale_build_small:
  "case build_tree (map example_row [''R -> A'', ''-> A'', ''R -> A'']) of
     Some (Inr (t, st)) \<Rightarrow>
       t = 0 \<and> traverse_tree (heap st) 0 = Some [0, 1, 2] \<and>
       parent (heap st 1) = Some 0 \<and> name (heap st 0) = ''R'' \<and> name (heap st 1) = ''A'' \<and>
       kwargs (heap st 1) = None
   | _ \<Rightarrow> False"
  by code_simp

text \<open>
  C2, as the claim states it, fails: on the rows \<open>R -> A\<close>, \<open>-> A\<close>, \<open>R -> A\<close> the build
  succeeds, and the node at address 1 is a non-root node of the resulting tree that has
  no \<open>kwargs\<close> at all.
\<close>

theorem kwargs_missing_counterexample:
  "\<exists>st ys. build_tree (map example_row [''R -> A'', ''-> A'', ''R -> A'']) = Some (Inr (0, st)) \<and>
        traverse_tree (heap st) 0 = Some ys \<and> 1 \<in> set ys \<and>
        parent (heap st 1) = Some 0 \<and> kwargs (heap st 1) = None"
proof -
  let ?df = "map example_row [''R -> A'', ''-> A'', ''R -> A'']"
  from stale_build_small obtain t st where b: "build_tree ?df = Some (Inr (t, st))"
    by (cases "build_tree ?df") (auto split: sum.splits)
  with stale_build_small have f: "t = 0" "traverse_tree (heap st) 0 = Some [0, 1, 2]"
    "parent (heap st 1) = Some 0" "kwargs (heap st 1) = None"
    by simp_all
  with b show ?thesis by auto
qed

section \<open>Rows without a relation\<close>

lemma strip_keeps_arrow: "sublist ''->'' x \<Longrightarrow> sublist ''->'' (strip_process x)"
proof -
  assume "sublist ''->'' x"
  then obtain ps ss where "x = ps @ ''->'' @ ss" by (auto simp: sublist_def)
  then have "strip_process x = strip_process ps @ ''->'' @ strip_process ss"
    by (simp add: strip_process_filter)
  then show ?thesis unfolding sublist_def by blast
qed

lemma split_process_no_arrow: "\<not> sublist ''->'' y \<Longrightarrow> split_process y = Inl IndexError"
  using split_from_none[of "''->''" y "[]"] by (simp add: split_process_def py_split_def)

lemma pass2_step_no_arrow:
  "\<not> sublist ''->'' (strip_process (process r)) \<Longrightarrow> pass2_step st r = Inl IndexError"
  by (simp add: pass2_step_def split_process_no_arrow)

lemma pass2_fails:
  "r \<in> set df \<Longrightarrow> (\<And>st. pass2_step st r = Inl IndexError) \<Longrightarrow> \<exists>e. pass2 st df = Inl e"
proof (induction df arbitrary: st)
  case Nil
  then show ?case by simp
next
  case (Cons x xs)
  show ?case
  proof (cases "pass2_step st x")
    case (Inl e)
    then show ?thesis by simp
  next
    case (Inr st1)
    with Cons.prems have "r \<in> set xs" by auto
    from Cons.IH[OF this Cons.prems(2)] Inr show ?thesis by simp
  qed
qed

text \<open>
  C6, amended. The second loop of \<open>build_tree\<close> goes through every row of the input,
  also the rows the first loop skipped. A row whose process field holds no \<open>->\<close> once
  its space characters are removed is skipped by the first loop, and the second loop
  raises \<open>IndexError\<close> on it instead of skipping it: the build fails for every input that
  holds such a row.
\<close>

theorem pass2_needs_relation:
  assumes "r \<in> set df" and "\<not> sublist ''->'' (strip_process (process r))"
  shows "(\<forall>st. pass1_step st r = Some (Inr st)) \<and>
         (\<forall>st. pass2_step st r = Inl IndexError) \<and>
         (\<forall>st. \<exists>e. pass2 st df = Inl e) \<and>
         (\<exists>e. build_tree df = Some (Inl e))"
proof -
  from assms(2) strip_keeps_arrow have "\<not> sublist ''->'' (process r)" by blast
  then have p1: "\<forall>st. pass1_step st r = Some (Inr st)" by (simp add: pass1_step_def)
  have s: "\<And>st. pass2_step st r = Inl IndexError"
    using assms(2) by (rule pass2_step_no_arrow)
  have p2: "\<forall>st. \<exists>e. pass2 st df = Inl e"
    using pass2_fails[OF assms(1) s] by blast
  from build_nodes_ok[of df] obtain res where b: "build_nodes df = Some res" by blast
  have "\<exists>e. res = Inl e"
  proof (cases "pass1 init df")
    case None
    with b show ?thesis by (simp add: build_nodes_def)
  next
    case (Some a)
    show ?thesis
    proof (cases a)
      case (Inl e)
      with Some b show ?thesis by (auto simp: build_nodes_def)
    next
      case (Inr st1)
      from p2 obtain e where "pass2 st1 df = Inl e" by blast
      with Some Inr b show ?thesis by (auto simp: build_nodes_def)
    qed
  qed
  with b have "\<exists>e. build_tree df = Some (Inl e)" by (auto simp: build_tree_def)
  with p1 s p2 show ?thesis by blast
qed

theorem pass2_needs_relation_witness:
  "example_row ''note'' \<in> set [example_row ''-> A'', example_row ''note''] \<and>
   \<not> sublist ''->'' (strip_process (process (example_row ''note''))) \<and>
   (\<forall>st. pass1_step st (example_row ''note'') = Some (Inr st)) \<and>
   (\<forall>st. pass2_step st (example_row ''note'') = Inl IndexError) \<and>
   (\<forall>st. \<exists>e. pass2 st [example_row ''-> A'', example_row ''note''] = Inl e) \<and>
   (\<exists>e. build_tree [example_row ''-> A'', example_row ''note''] = Some (Inl e))"
proof -
  have h1: "example_row ''note'' \<in> set [example_row ''-> A'', example_row ''note'']" by simp
  have h2: "\<not> sublist ''->'' (strip_process (process (example_row ''note'')))" by code_simp
  from pass2_needs_relation[OF h1 h2] h1 h2 show ?thesis by blast
qed

text \<open>
  C6, as the claim states it, fails: the process field \<open>A - > B\<close> does not contain
  \<open>->\<close>, so the first loop skips the row, but the second loop removes the spaces first,
  finds the registered node \<open>B\<close> and raises nothing: the build succeeds.
\<close>

theorem pass2_spaced_arrow_counterexample:
  "\<not> sublist ''->'' (process (example_row ''A - > B'')) \<and>
   pass1_step init (example_row ''A - > B'') = Some (Inr init) \<and>
   succeeds (build_tree [example_row ''-> B'', example_row ''A - > B''])"
proof -
  have a: "\<not> sublist ''->'' (process (example_row ''A - > B''))" by code_simp
  then have b: "pass1_step init (example_row ''A - > B'') = Some (Inr init)"
    by (simp add: pass1_step_def)
  have c: "succeeds (build_tree [example_row ''-> B'', example_row ''A - > B''])" by code_simp
  from a b c show ?thesis by blast
qed

section \<open>The last relation wins\<close>

lemma pass1_append:
  "pass1 st (xs @ ys) = (case pass1 st xs of Some (Inr st1) \<Rightarrow> pass1 st1 ys | other \<Rightarrow> other)"
  by (induction xs arbitrary: st) (auto split: option.splits sum.splits)

lemma get_node_frame:
  assumes ok: "state_ok st" and g: "get_node st nm = (st', a)"
  shows "(\<forall>b. b < fresh st \<longrightarrow> heap st' b = heap st b) \<and>
         (\<forall>s. s \<noteq> nm \<longrightarrow> map_of (nodes st') s = map_of (nodes st) s) \<and>
         name (heap st' a) = nm"
proof (cases "map_of (nodes st) nm")
  case None
  with g show ?thesis by (auto simp: get_node_def new_node_def update_conv' bare_def)
next
  case (Some b)
  with g ok show ?thesis by (auto simp: get_node_def state_ok_def reg_ok_def)
qed

lemma linked_cong:
  assumes l: "linked st c p"
    and m: "map_of (nodes st') c = map_of (nodes st) c"
    and par: "\<And>a. map_of (nodes st) c = Some a \<Longrightarrow> parent (heap st' a) = parent (heap st a)"
    and nam: "\<And>a pa. map_of (nodes st) c = Some a \<Longrightarrow> parent (heap st a) = Some pa \<Longrightarrow>
                name (heap st' pa) = name (heap st pa)"
  shows "linked st' c p"
  using l m par nam unfolding linked_def by (auto split: if_splits)

lemma pass1_step_sets:
  assumes ok: "state_ok st" and rel: "relation_row r" and seg: "segments r = Inr (p, c)"
    and step: "pass1_step st r = Some (Inr st')"
  shows "linked st' c p"
proof (cases "p = []")
  case True
  with rel seg step show ?thesis
    by (auto simp: pass1_step_def relation_row_def segments_def new_node_def linked_def
        update_conv' bare_def)
next
  case ne: False
  obtain st1 np where g1: "get_node st p = (st1, np)" by (cases "get_node st p")
  obtain st2 nc where g2: "get_node st1 c = (st2, nc)" by (cases "get_node st1 c")
  from rel seg ne g1 g2 step obtain h' where sp: "set_parent (heap st2) nc np = Some (Inr h')"
    and st': "st' = st2\<lparr>heap := h'\<rparr>"
    by (auto simp: pass1_step_def relation_row_def segments_def split: option.splits sum.splits)
  from get_node_ok[OF ok g1] have ok1: "state_ok st1" and np1: "np < fresh st1" by simp_all
  from get_node_frame[OF ok g1] have n1: "name (heap st1 np) = p" by simp
  from get_node_frame[OF ok1 g2] np1 n1 have n2: "name (heap st2 np) = p" by simp
  from get_node_ok[OF ok1 g2] have mc: "map_of (nodes st2) c = Some nc" by simp
  from set_parent_frame[OF sp] n2 have "parent (h' nc) = Some np" "name (h' np) = p" by simp_all
  with mc ne show ?thesis by (auto simp: linked_def st')
qed

lemma get_node_result:
  assumes g: "get_node st nm = (st', a)"
  shows "case map_of (nodes st) nm of Some b \<Rightarrow> a = b | None \<Rightarrow> a = fresh st"
  using g by (auto simp: get_node_def new_node_def split: option.splits)

lemma pass1_step_sets_nodes:
  assumes ok: "state_ok st" and rel: "relation_row r" and seg: "segments r = Inr (p, c)"
    and ne: "p \<noteq> []" and step: "pass1_step st r = Some (Inr st')"
  shows "\<exists>a pa. (case map_of (nodes st) c of Some a0 \<Rightarrow> a = a0 | None \<Rightarrow> fresh st \<le> a) \<and>
           (case map_of (nodes st) p of Some b0 \<Rightarrow> pa = b0 | None \<Rightarrow> fresh st \<le> pa) \<and>
           map_of (nodes st') c = Some a \<and> parent (heap st' a) = Some pa \<and>
           name (heap st' pa) = p"
proof -
  obtain st1 np where g1: "get_node st p = (st1, np)" by (cases "get_node st p")
  obtain st2 nc where g2: "get_node st1 c = (st2, nc)" by (cases "get_node st1 c")
  from rel seg ne g1 g2 step obtain h' where sp: "set_parent (heap st2) nc np = Some (Inr h')"
    and st': "st' = st2\<lparr>heap := h'\<rparr>"
    by (auto simp: pass1_step_def relation_row_def segments_def split: option.splits sum.splits)
  from get_node_ok[OF ok g1] have ok1: "state_ok st1" and np1: "np < fresh st1"
    and mp1: "map_of (nodes st1) p = Some np" and le1: "fresh st \<le> fresh st1" by simp_all
  from get_node_frame[OF ok g1] have n1: "name (heap st1 np) = p" by simp
  from get_node_frame[OF ok1 g2] np1 n1 have n2: "name (heap st2 np) = p" by simp
  from get_node_ok[OF ok1 g2] have ok2: "state_ok st2" and mc: "map_of (nodes st2) c = Some nc"
    by simp_all
  from ok2 have hk2: "heap_ok (fresh st2) (heap st2)" by (simp add: state_ok_def)
  have nn: "nc \<noteq> np"
  proof
    assume e: "nc = np"
    from heap_ok_no_self_parent[OF hk2, of np] have "parent (heap st2 np) \<noteq> Some np" .
    with sp e show False by (simp add: set_parent_def)
  qed
  have cp: "c \<noteq> p"
  proof
    assume "c = p"
    with mp1 get_node_result[OF g2] have "nc = np" by simp
    with nn show False by simp
  qed
  from get_node_frame[OF ok g1] cp have same: "map_of (nodes st1) c = map_of (nodes st) c" by simp
  have ca: "case map_of (nodes st) c of Some a0 \<Rightarrow> nc = a0 | None \<Rightarrow> fresh st \<le> nc"
    using get_node_result[OF g2] same le1 by (auto split: option.splits)
  have cb: "case map_of (nodes st) p of Some b0 \<Rightarrow> np = b0 | None \<Rightarrow> fresh st \<le> np"
    using get_node_result[OF g1] by (auto split: option.splits)
  from set_parent_frame[OF sp] n2 have "parent (h' nc) = Some np" "name (h' np) = p" by simp_all
  with mc ca cb show ?thesis by (auto simp: st')
qed

lemma pass1_step_other:
  assumes ok: "state_ok st" and ma: "map_of (nodes st) c = Some a"
    and step: "pass1_step st r = Some (Inr st')"
    and other: "relation_row r \<longrightarrow> (\<forall>p'. segments r \<noteq> Inr (p', c))"
  shows "map_of (nodes st') c = Some a \<and> parent (heap st' a) = parent (heap st a) \<and>
         (\<forall>pa. parent (heap st a) = Some pa \<longrightarrow> name (heap st' pa) = name (heap st pa))"
proof (cases "relation_row r")
  case False
  with step ma show ?thesis by (auto simp: pass1_step_def relation_row_def)
next
  case rel: True
  from ok have hk: "heap_ok (fresh st) (heap st)" and rk: "reg_ok st" by (simp_all add: state_ok_def)
  from ma rk have a_lt: "a < fresh st" and a_nm: "name (heap st a) = c" by (auto simp: reg_ok_def)
  have pa_lt: "\<And>pa. parent (heap st a) = Some pa \<Longrightarrow> pa < fresh st"
    using hk by (auto simp: heap_ok_def)
  show ?thesis
  proof (cases "segments r")
    case (Inl e)
    with rel step ma show ?thesis
      by (auto simp: pass1_step_def relation_row_def segments_def)
  next
    case (Inr q)
    obtain p' c' where q: "q = (p', c')" by (cases q)
    with Inr other rel have cc: "c' \<noteq> c" by auto
    show ?thesis
    proof (cases "p' = []")
      case True
      with rel Inr q step have st': "st' = st\<lparr>heap := (heap st)(fresh st := bare c'),
            fresh := Suc (fresh st), nodes := AList.update c' (fresh st) (nodes st)\<rparr>"
        by (auto simp: pass1_step_def relation_row_def segments_def new_node_def)
      have "map_of (nodes st') c = Some a" using cc ma by (simp add: st' update_conv')
      moreover have "parent (heap st' a) = parent (heap st a)" using a_lt by (simp add: st')
      moreover have "\<forall>pa. parent (heap st a) = Some pa \<longrightarrow> name (heap st' pa) = name (heap st pa)"
        using pa_lt by (auto simp: st')
      ultimately show ?thesis by blast
    next
      case ne: False
      obtain st1 np where g1: "get_node st p' = (st1, np)" by (cases "get_node st p'")
      obtain st2 nc where g2: "get_node st1 c' = (st2, nc)" by (cases "get_node st1 c'")
      from rel Inr q ne g1 g2 step obtain h' where
        sp: "set_parent (heap st2) nc np = Some (Inr h')" and st': "st' = st2\<lparr>heap := h'\<rparr>"
        by (auto simp: pass1_step_def relation_row_def segments_def split: option.splits sum.splits)
      from get_node_ok[OF ok g1] have ok1: "state_ok st1" and le1: "fresh st \<le> fresh st1"
        by simp_all
      from get_node_ok[OF ok1 g2] have ok2: "state_ok st2" and mc': "map_of (nodes st2) c' = Some nc"
        by simp_all
      from get_node_keeps[OF ok g1 ma] have m1: "map_of (nodes st1) c = Some a" .
      from get_node_keeps[OF ok1 g2 m1] have m2: "map_of (nodes st2) c = Some a" .
      have same: "\<And>b. b < fresh st \<Longrightarrow> heap st2 b = heap st b"
        using get_node_frame[OF ok g1] get_node_frame[OF ok1 g2] le1 by auto
      from ok2 have rk2: "reg_ok st2" by (simp add: state_ok_def)
      from rk2 mc' have "name (heap st2 nc) = c'" by (auto simp: reg_ok_def)
      moreover from rk2 m2 have "name (heap st2 a) = c" by (auto simp: reg_ok_def)
      ultimately have na: "nc \<noteq> a" using cc by auto
      note fr = set_parent_frame[OF sp]
      have "map_of (nodes st') c = Some a" using m2 by (simp add: st')
      moreover have "parent (heap st' a) = parent (heap st a)"
        using fr na same[OF a_lt] by (simp add: st')
      moreover have "\<forall>pa. parent (heap st a) = Some pa \<longrightarrow> name (heap st' pa) = name (heap st pa)"
        using pa_lt same fr by (simp add: st')
      ultimately show ?thesis by blast
    qed
  qed
qed

lemma pass1_other:
  assumes "state_ok st" and "map_of (nodes st) c = Some a" and "pass1 st rs = Some (Inr st')"
    and "\<forall>r \<in> set rs. relation_row r \<longrightarrow> (\<forall>p'. segments r \<noteq> Inr (p', c))"
  shows "map_of (nodes st') c = Some a \<and> parent (heap st' a) = parent (heap st a) \<and>
         (\<forall>pa. parent (heap st a) = Some pa \<longrightarrow> name (heap st' pa) = name (heap st pa))"
  using assms
proof (induction rs arbitrary: st)
  case Nil
  then show ?case by simp
next
  case (Cons r rs)
  from Cons.prems(3) obtain st1 where s: "pass1_step st r = Some (Inr st1)"
    and p: "pass1 st1 rs = Some (Inr st')"
    by (auto split: option.splits sum.splits)
  from pass1_step_ok[OF Cons.prems(1), of r] s have ok1: "state_ok st1" by auto
  from Cons.prems(4) have o: "relation_row r \<longrightarrow> (\<forall>p'. segments r \<noteq> Inr (p', c))" by simp
  note f1 = pass1_step_other[OF Cons.prems(1,2) s o]
  from f1 have m1: "map_of (nodes st1) c = Some a" by simp
  from Cons.prems(4) have o': "\<forall>r \<in> set rs. relation_row r \<longrightarrow> (\<forall>p'. segments r \<noteq> Inr (p', c))"
    by simp
  note f2 = Cons.IH[OF ok1 m1 p o']
  from f1 f2 show ?case by auto
qed

lemma pass2_step_frame:
  assumes "pass2_step st r = Inr st'"
  shows "nodes st' = nodes st \<and> fresh st' = fresh st \<and>
         (\<forall>a. parent (heap st' a) = parent (heap st a) \<and> name (heap st' a) = name (heap st a) \<and>
              children (heap st' a) = children (heap st a))"
  using assms
  by (auto simp: pass2_step_def Let_def set_node_def update_triv
      split: sum.splits option.splits prod.splits)

lemma pass2_frame:
  "pass2 st rs = Inr st' \<Longrightarrow>
     nodes st' = nodes st \<and> fresh st' = fresh st \<and>
     (\<forall>a. parent (heap st' a) = parent (heap st a) \<and> name (heap st' a) = name (heap st a) \<and>
          children (heap st' a) = children (heap st a))"
proof (induction rs arbitrary: st)
  case Nil
  then show ?case by simp
next
  case (Cons r rs)
  from Cons.prems obtain st1 where s: "pass2_step st r = Inr st1" and p: "pass2 st1 rs = Inr st'"
    by (auto split: sum.splits)
  from Cons.IH[OF p] pass2_step_frame[OF s] show ?case by simp
qed

lemma build_tree_parts:
  assumes "build_tree df = Some (Inr (t, st))"
  shows "\<exists>st1. pass1 init df = Some (Inr st1) \<and> pass2 st1 df = Inr st \<and> pick_root st = Inr t"
  using assms
  by (auto simp: build_tree_def build_nodes_def split: option.splits sum.splits)

lemma linked_nodes_ok:
  assumes ok: "state_ok st" and m: "map_of (nodes st) c = Some a"
    and p: "parent (heap st a) = Some pa"
  shows "linked_nodes st c a pa"
proof -
  from ok have "\<forall>q x. x \<in> set (children (heap st q)) \<longleftrightarrow> parent (heap st x) = Some q"
    by (simp add: state_ok_def heap_ok_def)
  with m p show ?thesis by (auto simp: linked_nodes_def)
qed

text \<open>
  C4. When a name is the child of several relation rows (the rows that the first loop
  does not skip), each such row sets the parent link of the node registered under the
  name, in input order, so the link that stays is the one made by the last such row.
  Let \<open>r\<close> be a relation row with parent segment \<open>p\<close> and child segment \<open>c\<close>, and let no
  relation row after it have the child \<open>c\<close>. Then after the first loop, and after
  \<open>build_tree\<close> when it succeeds, the node registered under \<open>c\<close> has a parent whose name
  is \<open>p\<close> (and has no parent when \<open>p\<close> is empty, the row being a root declaration).
  When \<open>p\<close> is not empty the row overwrites the link and replaces no node: the node
  registered under \<open>c\<close> is the one that \<open>c\<close> was registered to when the row was
  reached (a new node only when \<open>c\<close> was not registered), its parent is the node that
  \<open>p\<close> was registered to when the row was reached (a new node only when \<open>p\<close> was not
  registered), and it is among the children of that parent and of no other node, so
  an earlier parent has lost it. Processing \<open>A -> B\<close> and then \<open>X -> B\<close> leaves \<open>B\<close>
  with the parent \<open>X\<close>.
\<close>

theorem last_relation_wins:
  assumes "pass1 init (pre @ r # post) = Some (Inr st1)"
    and "relation_row r" and "segments r = Inr (p, c)"
    and "\<forall>r' \<in> set post. relation_row r' \<longrightarrow> (\<forall>p'. segments r' \<noteq> Inr (p', c))"
  shows "linked st1 c p \<and>
         (\<forall>t st. build_tree (pre @ r # post) = Some (Inr (t, st)) \<longrightarrow> linked st c p) \<and>
         (p \<noteq> [] \<longrightarrow>
            (\<exists>sa a pa.
               pass1 init pre = Some (Inr sa) \<and>
               (case map_of (nodes sa) c of Some a0 \<Rightarrow> a = a0 | None \<Rightarrow> fresh sa \<le> a) \<and>
               (case map_of (nodes sa) p of Some b0 \<Rightarrow> pa = b0 | None \<Rightarrow> fresh sa \<le> pa) \<and>
               linked_nodes st1 c a pa \<and> name (heap st1 pa) = p \<and>
               (\<forall>t st. build_tree (pre @ r # post) = Some (Inr (t, st)) \<longrightarrow>
                    linked_nodes st c a pa \<and> name (heap st pa) = p)))"
proof -
  from assms(1) obtain sa where a: "pass1 init pre = Some (Inr sa)"
    and b: "pass1 sa (r # post) = Some (Inr st1)"
    by (auto simp: pass1_append split: option.splits sum.splits)
  from b obtain sb where s: "pass1_step sa r = Some (Inr sb)" and c: "pass1 sb post = Some (Inr st1)"
    by (auto split: option.splits sum.splits)
  from pass1_ok[OF init_ok, of pre] a have oka: "state_ok sa" by auto
  from pass1_step_ok[OF oka, of r] s have okb: "state_ok sb" by auto
  from pass1_ok[OF okb, of post] c have ok1: "state_ok st1" by auto
  from pass1_step_sets[OF oka assms(2,3) s] have lb: "linked sb c p" .
  then obtain x where mx: "map_of (nodes sb) c = Some x" by (auto simp: linked_def)
  note keep = pass1_other[OF okb mx c assms(4)]
  have l1: "linked st1 c p"
    using keep mx by (intro linked_cong[OF lb]) auto
  have p2: "pass2 st1 (pre @ r # post) = Inr st \<and> state_ok st"
    if bt: "build_tree (pre @ r # post) = Some (Inr (t, st))" for t st
  proof -
    from build_tree_parts[OF bt] assms(1) have "pass2 st1 (pre @ r # post) = Inr st" by auto
    with pass2_ok[OF ok1] show ?thesis by blast
  qed
  have l2: "\<forall>t st. build_tree (pre @ r # post) = Some (Inr (t, st)) \<longrightarrow> linked st c p"
  proof (intro allI impI)
    fix t st assume bt: "build_tree (pre @ r # post) = Some (Inr (t, st))"
    from p2[OF bt] have "pass2 st1 (pre @ r # post) = Inr st" by simp
    from pass2_frame[OF this] show "linked st c p" by (intro linked_cong[OF l1]) simp_all
  qed
  have l3: "p \<noteq> [] \<longrightarrow>
            (\<exists>sa a pa.
               pass1 init pre = Some (Inr sa) \<and>
               (case map_of (nodes sa) c of Some a0 \<Rightarrow> a = a0 | None \<Rightarrow> fresh sa \<le> a) \<and>
               (case map_of (nodes sa) p of Some b0 \<Rightarrow> pa = b0 | None \<Rightarrow> fresh sa \<le> pa) \<and>
               linked_nodes st1 c a pa \<and> name (heap st1 pa) = p \<and>
               (\<forall>t st. build_tree (pre @ r # post) = Some (Inr (t, st)) \<longrightarrow>
                    linked_nodes st c a pa \<and> name (heap st pa) = p))"
  proof
    assume ne: "p \<noteq> []"
    from pass1_step_sets_nodes[OF oka assms(2,3) ne s] obtain na pa where
      ca: "case map_of (nodes sa) c of Some a0 \<Rightarrow> na = a0 | None \<Rightarrow> fresh sa \<le> na"
      and cb: "case map_of (nodes sa) p of Some b0 \<Rightarrow> pa = b0 | None \<Rightarrow> fresh sa \<le> pa"
      and mb: "map_of (nodes sb) c = Some na" and pb: "parent (heap sb na) = Some pa"
      and nb: "name (heap sb pa) = p" by blast
    note k = pass1_other[OF okb mb c assms(4)]
    from k pb have m1: "map_of (nodes st1) c = Some na" and p1: "parent (heap st1 na) = Some pa"
      by simp_all
    from k pb nb have n1: "name (heap st1 pa) = p" by simp
    note ln1 = linked_nodes_ok[OF ok1 m1 p1]
    have fin: "\<forall>t st. build_tree (pre @ r # post) = Some (Inr (t, st)) \<longrightarrow>
                    linked_nodes st c na pa \<and> name (heap st pa) = p"
    proof (intro allI impI)
      fix t st assume bt: "build_tree (pre @ r # post) = Some (Inr (t, st))"
      from p2[OF bt] have q: "pass2 st1 (pre @ r # post) = Inr st" and oks: "state_ok st"
        by simp_all
      from pass2_frame[OF q] m1 p1 n1 have "map_of (nodes st) c = Some na"
        "parent (heap st na) = Some pa" "name (heap st pa) = p" by simp_all
      with linked_nodes_ok[OF oks] show "linked_nodes st c na pa \<and> name (heap st pa) = p"
        by blast
    qed
    from a ca cb ln1 n1 fin show "\<exists>sa a pa.
               pass1 init pre = Some (Inr sa) \<and>
               (case map_of (nodes sa) c of Some a0 \<Rightarrow> a = a0 | None \<Rightarrow> fresh sa \<le> a) \<and>
               (case map_of (nodes sa) p of Some b0 \<Rightarrow> pa = b0 | None \<Rightarrow> fresh sa \<le> pa) \<and>
               linked_nodes st1 c a pa \<and> name (heap st1 pa) = p \<and>
               (\<forall>t st. build_tree (pre @ r # post) = Some (Inr (t, st)) \<longrightarrow>
                    linked_nodes st c a pa \<and> name (heap st pa) = p)"
      by blast
  qed
  from l1 l2 l3 show ?thesis by blast
qed

lemma reparent_pass1:
  "case pass1 init [example_row ''A -> B''] of
     Some (Inr sa) \<Rightarrow>
       map_of (nodes sa) ''B'' = Some 1 \<and> map_of (nodes sa) ''X'' = None \<and> fresh sa = 2 \<and>
       parent (heap sa 1) = Some 0 \<and>
       succeeds (pass1 init ([example_row ''A -> B''] @ example_row ''X -> B'' # []))
   | _ \<Rightarrow> False"
  by code_simp

lemma reparent_build:
  "case pass1 init (map example_row [''-> R'', ''R -> A'', ''A -> B'', ''R -> X'']) of
     Some (Inr sa) \<Rightarrow>
       map_of (nodes sa) ''B'' = Some 2 \<and> map_of (nodes sa) ''X'' = Some 3 \<and>
       parent (heap sa 2) = Some 1 \<and>
       succeeds (build_tree (map example_row [''-> R'', ''R -> A'', ''A -> B'', ''R -> X''] @
                             example_row ''X -> B'' # [example_row ''B -> C'']))
   | _ \<Rightarrow> False"
  by code_simp

theorem last_relation_wins_witness:
  "(\<exists>sa st1.
        pass1 init [example_row ''A -> B''] = Some (Inr sa) \<and>
        map_of (nodes sa) ''B'' = Some 1 \<and> parent (heap sa 1) = Some 0 \<and>
        pass1 init ([example_row ''A -> B''] @ example_row ''X -> B'' # []) = Some (Inr st1) \<and>
        relation_row (example_row ''X -> B'') \<and>
        segments (example_row ''X -> B'') = Inr (''X'', ''B'') \<and>
        linked st1 ''B'' ''X'' \<and>
        (\<exists>pa. 2 \<le> pa \<and> linked_nodes st1 ''B'' 1 pa \<and> name (heap st1 pa) = ''X'' \<and>
              1 \<notin> set (children (heap st1 0)))) \<and>
   (\<exists>sa st1 t st.
        pass1 init (map example_row [''-> R'', ''R -> A'', ''A -> B'', ''R -> X'']) = Some (Inr sa) \<and>
        map_of (nodes sa) ''B'' = Some 2 \<and> map_of (nodes sa) ''X'' = Some 3 \<and>
        parent (heap sa 2) = Some 1 \<and>
        pass1 init (map example_row [''-> R'', ''R -> A'', ''A -> B'', ''R -> X''] @
                    example_row ''X -> B'' # [example_row ''B -> C'']) = Some (Inr st1) \<and>
        (\<forall>r' \<in> set [example_row ''B -> C'']. relation_row r' \<longrightarrow>
             (\<forall>p'. segments r' \<noteq> Inr (p', ''B''))) \<and>
        build_tree (map example_row [''-> R'', ''R -> A'', ''A -> B'', ''R -> X''] @
                    example_row ''X -> B'' # [example_row ''B -> C'']) = Some (Inr (t, st)) \<and>
        linked st ''B'' ''X'' \<and>
        linked_nodes st1 ''B'' 2 3 \<and> linked_nodes st ''B'' 2 3 \<and> name (heap st 3) = ''X'')"
proof (intro conjI)
  let ?pre = "[example_row ''A -> B'']"
  let ?r = "example_row ''X -> B''"
  have h2: "relation_row ?r" by code_simp
  have h3: "segments ?r = Inr (''X'', ''B'')" by code_simp
  have h4: "\<forall>r' \<in> set []. relation_row r' \<longrightarrow> (\<forall>p'. segments r' \<noteq> Inr (p', ''B''))" by simp
  from reparent_pass1 obtain sa where pa: "pass1 init ?pre = Some (Inr sa)"
    by (cases "pass1 init ?pre") (auto split: sum.splits)
  with reparent_pass1 have f: "map_of (nodes sa) ''B'' = Some 1" "map_of (nodes sa) ''X'' = None"
    "fresh sa = 2" "parent (heap sa 1) = Some 0"
    and su: "succeeds (pass1 init (?pre @ ?r # []))" by simp_all
  from su obtain st1 where p: "pass1 init (?pre @ ?r # []) = Some (Inr st1)"
    by (cases "pass1 init (?pre @ ?r # [])") (auto simp: succeeds_def split: sum.splits)
  note th = last_relation_wins[OF p h2 h3 h4]
  from th have l: "linked st1 ''B'' ''X''" by blast
  from th obtain sa' a pa' where sa': "pass1 init ?pre = Some (Inr sa')"
    and ca: "case map_of (nodes sa') ''B'' of Some a0 \<Rightarrow> a = a0 | None \<Rightarrow> fresh sa' \<le> a"
    and cb: "case map_of (nodes sa') ''X'' of Some b0 \<Rightarrow> pa' = b0 | None \<Rightarrow> fresh sa' \<le> pa'"
    and ln: "linked_nodes st1 ''B'' a pa'" and nm: "name (heap st1 pa') = ''X''"
    by auto
  from sa' pa have e: "sa' = sa" by simp
  from ca cb e f have a1: "a = 1" and p2: "2 \<le> pa'" by simp_all
  from ln a1 p2 have "1 \<notin> set (children (heap st1 0))" by (auto simp: linked_nodes_def)
  with pa f p h2 h3 l ln nm a1 p2
  show "\<exists>sa st1.
        pass1 init ?pre = Some (Inr sa) \<and>
        map_of (nodes sa) ''B'' = Some 1 \<and> parent (heap sa 1) = Some 0 \<and>
        pass1 init (?pre @ ?r # []) = Some (Inr st1) \<and>
        relation_row ?r \<and> segments ?r = Inr (''X'', ''B'') \<and>
        linked st1 ''B'' ''X'' \<and>
        (\<exists>pa. 2 \<le> pa \<and> linked_nodes st1 ''B'' 1 pa \<and> name (heap st1 pa) = ''X'' \<and>
              1 \<notin> set (children (heap st1 0)))"
    by blast
next
  let ?pre = "map example_row [''-> R'', ''R -> A'', ''A -> B'', ''R -> X'']"
  let ?r = "example_row ''X -> B''"
  let ?post = "[example_row ''B -> C'']"
  have h2: "relation_row ?r" by code_simp
  have h3: "segments ?r = Inr (''X'', ''B'')" by code_simp
  have s: "segments (example_row ''B -> C'') = Inr (''B'', ''C'')" by code_simp
  have h4: "\<forall>r' \<in> set ?post. relation_row r' \<longrightarrow> (\<forall>p'. segments r' \<noteq> Inr (p', ''B''))"
    using s by simp
  from reparent_build obtain sa where pa: "pass1 init ?pre = Some (Inr sa)"
    by (cases "pass1 init ?pre") (auto split: sum.splits)
  with reparent_build have f: "map_of (nodes sa) ''B'' = Some 2" "map_of (nodes sa) ''X'' = Some 3"
    "parent (heap sa 2) = Some 1"
    and su: "succeeds (build_tree (?pre @ ?r # ?post))" by simp_all
  from su obtain t st where b: "build_tree (?pre @ ?r # ?post) = Some (Inr (t, st))"
    by (cases "build_tree (?pre @ ?r # ?post)") (auto simp: succeeds_def split: sum.splits prod.splits)
  from build_tree_parts[OF b] obtain st1 where p: "pass1 init (?pre @ ?r # ?post) = Some (Inr st1)"
    by blast
  note th = last_relation_wins[OF p h2 h3 h4]
  from th b have l: "linked st ''B'' ''X''" by blast
  from th obtain sa' a pa' where sa': "pass1 init ?pre = Some (Inr sa')"
    and ca: "case map_of (nodes sa') ''B'' of Some a0 \<Rightarrow> a = a0 | None \<Rightarrow> fresh sa' \<le> a"
    and cb: "case map_of (nodes sa') ''X'' of Some b0 \<Rightarrow> pa' = b0 | None \<Rightarrow> fresh sa' \<le> pa'"
    and ln: "linked_nodes st1 ''B'' a pa'"
    and fin: "\<forall>t st. build_tree (?pre @ ?r # ?post) = Some (Inr (t, st)) \<longrightarrow>
                 linked_nodes st ''B'' a pa' \<and> name (heap st pa') = ''X''"
    by auto
  from sa' pa have e: "sa' = sa" by simp
  from ca cb e f have a2: "a = 2" and p3: "pa' = 3" by simp_all
  from fin b a2 p3 have "linked_nodes st ''B'' 2 3" "name (heap st 3) = ''X''" by auto
  with pa f p h4 b l ln a2 p3
  show "\<exists>sa st1 t st.
        pass1 init ?pre = Some (Inr sa) \<and>
        map_of (nodes sa) ''B'' = Some 2 \<and> map_of (nodes sa) ''X'' = Some 3 \<and>
        parent (heap sa 2) = Some 1 \<and>
        pass1 init (?pre @ ?r # ?post) = Some (Inr st1) \<and>
        (\<forall>r' \<in> set ?post. relation_row r' \<longrightarrow> (\<forall>p'. segments r' \<noteq> Inr (p', ''B''))) \<and>
        build_tree (?pre @ ?r # ?post) = Some (Inr (t, st)) \<and>
        linked st ''B'' ''X'' \<and>
        linked_nodes st1 ''B'' 2 3 \<and> linked_nodes st ''B'' 2 3 \<and> name (heap st 3) = ''X''"
    by blast
qed

section \<open>The kwargs of a child\<close>

lemma register_parents:
  assumes ok: "state_ok st"
    and k: "\<forall>s a. map_of (nodes st) s = Some a \<longrightarrow> parent (heap st a) \<noteq> None \<longrightarrow> s \<in> S"
  shows "\<forall>s a. map_of (AList.update nm (fresh st) (nodes st)) s = Some a \<longrightarrow>
           parent (((heap st)(fresh st := bare nm)) a) \<noteq> None \<longrightarrow> s \<in> S"
proof (intro allI impI)
  fix s a
  assume m: "map_of (AList.update nm (fresh st) (nodes st)) s = Some a"
    and p: "parent (((heap st)(fresh st := bare nm)) a) \<noteq> None"
  from p have ne: "a \<noteq> fresh st" by (auto simp: bare_def split: if_splits)
  with m have "map_of (nodes st) s = Some a" by (auto simp: update_conv' split: if_splits)
  moreover from p ne have "parent (heap st a) \<noteq> None" by simp
  ultimately show "s \<in> S" using k by blast
qed

lemma get_node_parents:
  assumes ok: "state_ok st" and g: "get_node st nm = (st', b)"
    and k: "\<forall>s a. map_of (nodes st) s = Some a \<longrightarrow> parent (heap st a) \<noteq> None \<longrightarrow> s \<in> S"
  shows "\<forall>s a. map_of (nodes st') s = Some a \<longrightarrow> parent (heap st' a) \<noteq> None \<longrightarrow> s \<in> S"
proof (cases "map_of (nodes st) nm")
  case None
  with g have "st' = st\<lparr>heap := (heap st)(fresh st := bare nm), fresh := Suc (fresh st),
                      nodes := AList.update nm (fresh st) (nodes st)\<rparr>"
    by (auto simp: get_node_def new_node_def)
  with register_parents[OF ok k, of nm] show ?thesis by simp
next
  case (Some c)
  with g have "st' = st" by (auto simp: get_node_def)
  with k show ?thesis by simp
qed

lemma pass1_step_parents:
  assumes ok: "state_ok st"
    and k: "\<forall>s a. map_of (nodes st) s = Some a \<longrightarrow> parent (heap st a) \<noteq> None \<longrightarrow> s \<in> S"
    and step: "pass1_step st r = Some (Inr st')"
  shows "\<forall>s a. map_of (nodes st') s = Some a \<longrightarrow> parent (heap st' a) \<noteq> None \<longrightarrow>
           s \<in> S \<union> child_names {r}"
proof (cases "relation_row r")
  case False
  with step k show ?thesis by (auto simp: pass1_step_def relation_row_def)
next
  case rel: True
  show ?thesis
  proof (cases "segments r")
    case (Inl e)
    with rel step show ?thesis by (auto simp: pass1_step_def relation_row_def segments_def)
  next
    case (Inr q)
    obtain p' c' where q: "q = (p', c')" by (cases q)
    from rel Inr q have cn: "c' \<in> child_names {r}" by (auto simp: child_names_def)
    show ?thesis
    proof (cases "p' = []")
      case True
      with rel Inr q step have st': "st' = st\<lparr>heap := (heap st)(fresh st := bare c'),
            fresh := Suc (fresh st), nodes := AList.update c' (fresh st) (nodes st)\<rparr>"
        by (auto simp: pass1_step_def relation_row_def segments_def new_node_def)
      with register_parents[OF ok k, of c'] show ?thesis by simp
    next
      case ne: False
      obtain st1 np where g1: "get_node st p' = (st1, np)" by (cases "get_node st p'")
      obtain st2 nc where g2: "get_node st1 c' = (st2, nc)" by (cases "get_node st1 c'")
      from rel Inr q ne g1 g2 step obtain h' where
        sp: "set_parent (heap st2) nc np = Some (Inr h')" and st': "st' = st2\<lparr>heap := h'\<rparr>"
        by (auto simp: pass1_step_def relation_row_def segments_def split: option.splits sum.splits)
      from get_node_ok[OF ok g1] have ok1: "state_ok st1" by simp
      from get_node_ok[OF ok1 g2] have ok2: "state_ok st2" and mc: "map_of (nodes st2) c' = Some nc"
        by simp_all
      note k1 = get_node_parents[OF ok g1 k]
      note k2 = get_node_parents[OF ok1 g2 k1]
      from ok2 have rk2: "reg_ok st2" by (simp add: state_ok_def)
      note fr = set_parent_frame[OF sp]
      show ?thesis
      proof (intro allI impI)
        fix s a
        assume m: "map_of (nodes st') s = Some a" and p: "parent (heap st' a) \<noteq> None"
        from m have m2: "map_of (nodes st2) s = Some a" by (simp add: st')
        show "s \<in> S \<union> child_names {r}"
        proof (cases "a = nc")
          case True
          from rk2 m2 have "name (heap st2 a) = s" by (auto simp: reg_ok_def)
          moreover from rk2 mc have "name (heap st2 nc) = c'" by (auto simp: reg_ok_def)
          ultimately have "s = c'" using True by simp
          with cn show ?thesis by simp
        next
          case False
          with fr p have "parent (heap st2 a) \<noteq> None" by (simp add: st')
          with k2 m2 show ?thesis by blast
        qed
      qed
    qed
  qed
qed

lemma child_names_insert: "child_names (insert r R) = child_names R \<union> child_names {r}"
  by (auto simp: child_names_def)

lemma pass1_parents:
  assumes "state_ok st"
    and "\<forall>s a. map_of (nodes st) s = Some a \<longrightarrow> parent (heap st a) \<noteq> None \<longrightarrow> s \<in> S"
    and "pass1 st rs = Some (Inr st')"
  shows "\<forall>s a. map_of (nodes st') s = Some a \<longrightarrow> parent (heap st' a) \<noteq> None \<longrightarrow>
           s \<in> S \<union> child_names (set rs)"
  using assms
proof (induction rs arbitrary: st S)
  case Nil
  then show ?case by simp
next
  case (Cons r rs)
  from Cons.prems(3) obtain st1 where s: "pass1_step st r = Some (Inr st1)"
    and p: "pass1 st1 rs = Some (Inr st')"
    by (auto split: option.splits sum.splits)
  from pass1_step_ok[OF Cons.prems(1), of r] s have ok1: "state_ok st1" by auto
  note k1 = pass1_step_parents[OF Cons.prems(1,2) s]
  have "S \<union> child_names {r} \<union> child_names (set rs) = S \<union> child_names (set (r # rs))"
    using child_names_insert[of r "set rs"] by auto
  with Cons.IH[OF ok1 k1 p] show ?case by simp
qed

lemma pass2_step_kwargs:
  assumes j: "\<forall>s a. map_of (nodes st) s = Some a \<longrightarrow> s \<in> T \<longrightarrow> kwargs_ok st a"
    and step: "pass2_step st r = Inr st'"
  shows "\<exists>p c. segments r = Inr (p, c) \<and>
           (\<forall>s a. map_of (nodes st') s = Some a \<longrightarrow> s \<in> insert c T \<longrightarrow> kwargs_ok st' a)"
proof -
  from step obtain s1 s2 nd kw where seg: "segments r = Inr (s1, s2)"
    and m: "map_of (nodes st) s2 = Some nd"
    and st': "st' = st\<lparr>heap := set_node (heap st) nd (label r) (module r) (params r)
                 (case parent (heap st nd) of
                    None \<Rightarrow> AList.update ''child'' (name (heap st nd)) kw
                  | Some p \<Rightarrow> AList.update ''parent'' (name (heap st p))
                               (AList.update ''child'' (name (heap st nd)) kw)),
               nodes := AList.update s2 nd (nodes st)\<rparr>"
    by (auto simp: pass2_step_def segments_def Let_def split: sum.splits option.splits prod.splits)
  from m have n': "nodes st' = nodes st" by (simp add: st' update_triv)
  have nam: "\<And>a. name (heap st' a) = name (heap st a)" by (simp add: st' set_node_def)
  have par: "\<And>a. parent (heap st' a) = parent (heap st a)" by (simp add: st' set_node_def)
  have oth: "\<And>a. a \<noteq> nd \<Longrightarrow> kwargs (heap st' a) = kwargs (heap st a)"
    by (simp add: st' set_node_def)
  have nd_ok: "kwargs_ok st' nd"
    unfolding kwargs_ok_def nam par
    by (cases "parent (heap st nd)") (simp_all add: st' set_node_def update_conv')
  have "\<forall>s a. map_of (nodes st') s = Some a \<longrightarrow> s \<in> insert s2 T \<longrightarrow> kwargs_ok st' a"
  proof (intro allI impI)
    fix s a assume ma: "map_of (nodes st') s = Some a" and sT: "s \<in> insert s2 T"
    show "kwargs_ok st' a"
    proof (cases "a = nd")
      case True
      with nd_ok show ?thesis by simp
    next
      case False
      with ma m n' have "s \<noteq> s2" by auto
      with sT have "s \<in> T" by simp
      with j ma n' have "kwargs_ok st a" by simp
      then show ?thesis unfolding kwargs_ok_def nam par oth[OF False] .
    qed
  qed
  with seg show ?thesis by blast
qed

lemma pass2_kwargs:
  assumes "\<forall>s a. map_of (nodes st) s = Some a \<longrightarrow> s \<in> T \<longrightarrow> kwargs_ok st a"
    and "pass2 st rs = Inr st'"
  shows "\<forall>s a. map_of (nodes st') s = Some a \<longrightarrow> s \<in> T \<union> child_names (set rs) \<longrightarrow> kwargs_ok st' a"
  using assms
proof (induction rs arbitrary: st T)
  case Nil
  then show ?case by (simp add: child_names_def)
next
  case (Cons r rs)
  from Cons.prems(2) obtain st1 where s: "pass2_step st r = Inr st1" and p: "pass2 st1 rs = Inr st'"
    by (auto split: sum.splits)
  from pass2_step_kwargs[OF Cons.prems(1) s] obtain q c where seg: "segments r = Inr (q, c)"
    and j1: "\<forall>s a. map_of (nodes st1) s = Some a \<longrightarrow> s \<in> insert c T \<longrightarrow> kwargs_ok st1 a"
    by blast
  have "child_names {r} \<subseteq> {c}" using seg by (auto simp: child_names_def)
  then have "T \<union> child_names (set (r # rs)) \<subseteq> insert c T \<union> child_names (set rs)"
    using child_names_insert[of r "set rs"] by auto
  with Cons.IH[OF j1 p] show ?case by blast
qed

text \<open>
  C2, amended. For every input on which \<open>build_tree\<close> succeeds, every non-root node that
  the dictionary holds at the end (the node registered under its name) has \<open>kwargs\<close>
  whose entry \<open>parent\<close> is the name of its parent node and whose entry \<open>child\<close> is its
  own name.
\<close>

theorem registered_child_kwargs:
  assumes "build_tree df = Some (Inr (t, st))"
    and "map_of (nodes st) s = Some a" and "parent (heap st a) = Some p"
  shows "\<exists>kw. kwargs (heap st a) = Some kw \<and>
              map_of kw ''parent'' = Some (name (heap st p)) \<and>
              map_of kw ''child'' = Some (name (heap st a))"
proof -
  from build_tree_parts[OF assms(1)] obtain st1 where
    p1: "pass1 init df = Some (Inr st1)" and p2: "pass2 st1 df = Inr st" by blast
  have k0: "\<forall>s a. map_of (nodes init) s = Some a \<longrightarrow> parent (heap init a) \<noteq> None \<longrightarrow> s \<in> {}"
    by (simp add: init_def)
  from pass1_parents[OF init_ok k0 p1]
  have k1: "\<forall>s a. map_of (nodes st1) s = Some a \<longrightarrow> parent (heap st1 a) \<noteq> None \<longrightarrow>
              s \<in> child_names (set df)" by simp
  have j0: "\<forall>s a. map_of (nodes st1) s = Some a \<longrightarrow> s \<in> {} \<longrightarrow> kwargs_ok st1 a" by simp
  from pass2_kwargs[OF j0 p2]
  have j: "\<forall>s a. map_of (nodes st) s = Some a \<longrightarrow> s \<in> child_names (set df) \<longrightarrow> kwargs_ok st a"
    by simp
  from pass2_frame[OF p2] assms(2,3) have "map_of (nodes st1) s = Some a" "parent (heap st1 a) \<noteq> None"
    by simp_all
  with k1 have "s \<in> child_names (set df)" by blast
  with j assms(2) have "kwargs_ok st a" by blast
  with assms(3) show ?thesis by (auto simp: kwargs_ok_def)
qed

lemma child_build:
  "case build_tree (map example_row [''-> A'', ''A -> B'']) of
     Some (Inr (t, st)) \<Rightarrow> t = 0 \<and> map_of (nodes st) ''B'' = Some 1 \<and> parent (heap st 1) = Some 0
   | _ \<Rightarrow> False"
  by code_simp

theorem registered_child_kwargs_witness:
  "\<exists>st. build_tree (map example_row [''-> A'', ''A -> B'']) = Some (Inr (0, st)) \<and>
        map_of (nodes st) ''B'' = Some 1 \<and> parent (heap st 1) = Some 0 \<and>
        (\<exists>kw. kwargs (heap st 1) = Some kw \<and>
              map_of kw ''parent'' = Some (name (heap st 0)) \<and>
              map_of kw ''child'' = Some (name (heap st 1)))"
proof -
  let ?df = "map example_row [''-> A'', ''A -> B'']"
  from child_build obtain t st where b0: "build_tree ?df = Some (Inr (t, st))"
    by (cases "build_tree ?df") (auto split: sum.splits)
  with child_build have f: "t = 0" "map_of (nodes st) ''B'' = Some 1" "parent (heap st 1) = Some 0"
    by simp_all
  with b0 have b: "build_tree ?df = Some (Inr (0, st))" by simp
  from registered_child_kwargs[OF b f(2,3)] b f show ?thesis by blast
qed

section \<open>Breadth-first traversal\<close>

lemma level_funpow: "level h t i = (next_level h ^^ i) [t]"
  by (induction i) (simp_all add: next_level_def)

lemma next_level_append: "next_level h (xs @ ys) = next_level h xs @ next_level h ys"
  by (simp add: next_level_def)

lemma funpow_next_level_append:
  "(next_level h ^^ k) (xs @ ys) = (next_level h ^^ k) xs @ (next_level h ^^ k) ys"
  by (induction k) (simp_all add: next_level_append)

lemma funpow_next_level_Nil: "(next_level h ^^ k) [] = []"
  by (induction k) (simp_all add: next_level_def)

lemma funpow_next_level_empty_mono:
  assumes "(next_level h ^^ k) xs = []" and "k \<le> m"
  shows "(next_level h ^^ m) xs = []"
proof -
  from assms(2) obtain j where m: "m = j + k" by (metis le_add_diff_inverse2)
  have "(next_level h ^^ (j + k)) xs = (next_level h ^^ j) ((next_level h ^^ k) xs)"
    by (simp add: funpow_add)
  with assms(1) m show ?thesis by (simp add: funpow_next_level_Nil)
qed

lemma level_order_Nil: "level_order h [] = Some []"
  by (subst level_order.simps) simp

lemma level_order_Cons:
  "cs \<noteq> [] \<Longrightarrow> level_order h cs =
     Option.bind (level_order h (next_level h cs)) (\<lambda>ys. Some (cs @ ys))"
  by (subst level_order.simps) (simp add: next_level_def)

lemma level_order_levels:
  "(next_level h ^^ k) cs = [] \<Longrightarrow>
     level_order h cs = Some (concat (map (\<lambda>i. (next_level h ^^ i) cs) [0..<k]))"
proof (induction k arbitrary: cs)
  case 0
  then show ?case by (simp add: level_order_Nil)
next
  case (Suc k)
  from Suc.prems have "(next_level h ^^ k) (next_level h cs) = []"
    by (simp add: funpow_swap1)
  from Suc.IH[OF this] have ih: "level_order h (next_level h cs) =
      Some (concat (map (\<lambda>i. (next_level h ^^ i) (next_level h cs)) [0..<k]))" .
  have shift: "map (\<lambda>i. (next_level h ^^ i) cs) [0..<Suc k] =
      cs # map (\<lambda>i. (next_level h ^^ i) (next_level h cs)) [0..<k]"
  proof -
    have "[0..<Suc k] = 0 # map Suc [0..<k]" by (simp add: upt_conv_Cons map_Suc_upt)
    then have "map (\<lambda>i. (next_level h ^^ i) cs) [0..<Suc k] =
        cs # map (\<lambda>i. (next_level h ^^ Suc i) cs) [0..<k]"
      by (simp add: comp_def del: upt_Suc funpow.simps)
    then show ?thesis by (simp add: funpow_swap1 del: upt_Suc)
  qed
  show ?case
  proof (cases "cs = []")
    case True
    then show ?thesis by (simp add: level_order_Nil funpow_next_level_Nil del: upt_Suc)
  next
    case False
    with ih shift show ?thesis by (simp add: level_order_Cons del: upt_Suc)
  qed
qed

lemma list_levels_end:
  "(\<And>c. c \<in> set cs \<Longrightarrow> \<exists>k. (next_level h ^^ k) [c] = []) \<Longrightarrow>
     \<exists>k. (next_level h ^^ k) cs = []"
proof (induction cs)
  case Nil
  show ?case by (rule exI[of _ 0]) simp
next
  case (Cons c cs)
  from Cons.prems[of c] obtain k1 where k1: "(next_level h ^^ k1) [c] = []" by auto
  from Cons.IH Cons.prems obtain k2 where k2: "(next_level h ^^ k2) cs = []" by auto
  have "(next_level h ^^ max k1 k2) ([c] @ cs) = []"
    unfolding funpow_next_level_append
    using funpow_next_level_empty_mono[OF k1, of "max k1 k2"]
      funpow_next_level_empty_mono[OF k2, of "max k1 k2"] by simp
  then show ?case by auto
qed

lemma levels_end:
  assumes ok: "heap_ok n h"
  shows "\<exists>k. (next_level h ^^ k) [x] = []"
proof -
  from ok have "acyclic (parent_rel h)" by (simp add: heap_ok_def)
  with parent_rel_finite[OF ok] have "wf ((parent_rel h)\<inverse>)" by (rule finite_acyclic_wf_converse)
  then show ?thesis
  proof (induction x rule: wf_induct_rule)
    case (less x)
    have "\<exists>k. (next_level h ^^ k) (children (h x)) = []"
    proof (rule list_levels_end)
      fix c assume "c \<in> set (children (h x))"
      with ok have "parent (h c) = Some x" by (auto simp: heap_ok_def)
      then have "(c, x) \<in> (parent_rel h)\<inverse>" by (simp add: parent_rel_def)
      then show "\<exists>k. (next_level h ^^ k) [c] = []" by (rule less)
    qed
    then obtain k where "(next_level h ^^ k) (children (h x)) = []" by blast
    then have "(next_level h ^^ Suc k) [x] = []"
      by (simp add: funpow_swap1 next_level_def)
    then show ?case by blast
  qed
qed

lemma traverse_levels:
  assumes ok: "heap_ok n h"
  shows "\<exists>k. level h t k = [] \<and>
             traverse_tree h t = Some (concat (map (level h t) [0..<k]))"
proof -
  from levels_end[OF ok, of t] obtain k where k: "(next_level h ^^ k) [t] = []" by blast
  from level_order_levels[OF k] have "traverse_tree h t = Some (concat (map (level h t) [0..<k]))"
    by (simp add: traverse_tree_def level_funpow[abs_def])
  with k show ?thesis by (auto simp: level_funpow)
qed

lemma level_empty_mono: "level h t k = [] \<Longrightarrow> k \<le> m \<Longrightarrow> level h t m = []"
  using funpow_next_level_empty_mono[where h = h and k = k and xs = "[t]" and m = m]
  by (simp add: level_funpow)

lemma concat_levels_extend:
  "level h t k = [] \<Longrightarrow> concat (map (level h t) [0..<k + m]) = concat (map (level h t) [0..<k])"
proof (induction m)
  case 0
  show ?case by simp
next
  case (Suc m)
  from level_empty_mono[OF Suc.prems, of "k + m"] have "level h t (k + m) = []" by simp
  with Suc.IH[OF Suc.prems] show ?case by simp
qed

lemma concat_levels_split:
  assumes "i < k"
  shows "concat (map f [0..<k]) = concat (map f [0..<i]) @ f i @ concat (map f [Suc i..<k])"
proof -
  from assms have "[0..<k] = [0..<i] @ i # [Suc i..<k]"
    by (metis le0 upt_conv_Cons upt_add_eq_append le_add_diff_inverse less_imp_le_nat)
  then show ?thesis by simp
qed

lemma concat_levels_head:
  assumes "i < k"
  shows "concat (map f [i..<k]) = f i @ concat (map f [Suc i..<k])"
  using assms by (simp add: upt_conv_Cons)

lemma levels_prefix:
  assumes e: "level h t k = []"
  shows "\<exists>rest. concat (map (level h t) [0..<k]) =
           t # children (h t) @ concat (map (\<lambda>c. children (h c)) (children (h t))) @ rest"
proof -
  let ?L = "level h t"
  have h0: "concat (map ?L [0..<k + 3]) = ?L 0 @ concat (map ?L [Suc 0..<k + 3])"
    by (rule concat_levels_head) simp
  have h1: "concat (map ?L [Suc 0..<k + 3]) = ?L (Suc 0) @ concat (map ?L [Suc (Suc 0)..<k + 3])"
    by (rule concat_levels_head) simp
  have h2: "concat (map ?L [Suc (Suc 0)..<k + 3]) =
      ?L (Suc (Suc 0)) @ concat (map ?L [Suc (Suc (Suc 0))..<k + 3])"
    by (rule concat_levels_head) simp
  have l1: "?L (Suc 0) = children (h t)" by simp
  have l2: "?L (Suc (Suc 0)) = concat (map (\<lambda>c. children (h c)) (children (h t)))" by simp
  have "concat (map ?L [0..<k]) = concat (map ?L [0..<k + 3])"
    using concat_levels_extend[OF e, of 3] by simp
  also have "\<dots> = t # children (h t) @ concat (map (\<lambda>c. children (h c)) (children (h t))) @
      concat (map ?L [Suc (Suc (Suc 0))..<k + 3])"
    unfolding h0 h1 h2 l1 l2 by simp
  finally show ?thesis by blast
qed

lemma child_in_next_level:
  "n \<in> set (level h t i) \<Longrightarrow> c \<in> set (children (h n)) \<Longrightarrow> c \<in> set (level h t (Suc i))"
  by auto

lemma levels_children_first:
  assumes e: "level h t k = []"
    and n: "n \<in> set (concat (map (level h t) [0..<k]))"
    and c: "c \<in> set (children (h n))" and g: "g \<in> set (children (h c))"
  shows "\<exists>pre mid post. concat (map (level h t) [0..<k]) = pre @ c # mid @ g # post"
proof -
  from n obtain i where ik: "i < k" and ni: "n \<in> set (level h t i)" by auto
  from child_in_next_level[OF ni c] have ci: "c \<in> set (level h t (Suc i))" .
  from child_in_next_level[OF ci g] have gi: "g \<in> set (level h t (Suc (Suc i)))" .
  have lt: "Suc (Suc i) < k"
  proof (rule ccontr)
    assume "\<not> Suc (Suc i) < k"
    then have "k \<le> Suc (Suc i)" by simp
    from level_empty_mono[OF e this] gi show False by simp
  qed
  then have lt1: "Suc i < k" by simp
  from split_list[OF ci] obtain A B where A: "level h t (Suc i) = A @ c # B" by blast
  from split_list[OF gi] obtain C D where C: "level h t (Suc (Suc i)) = C @ g # D" by blast
  have "concat (map (level h t) [0..<k]) =
      concat (map (level h t) [0..<Suc i]) @ level h t (Suc i) @
      level h t (Suc (Suc i)) @ concat (map (level h t) [Suc (Suc (Suc i))..<k])"
    using concat_levels_split[OF lt1, of "level h t"] concat_levels_head[OF lt, of "level h t"]
    by simp
  also have "\<dots> = (concat (map (level h t) [0..<Suc i]) @ A) @ c # (B @ C) @ g #
      (D @ concat (map (level h t) [Suc (Suc (Suc i))..<k]))"
    unfolding A C by simp
  finally show ?thesis by blast
qed

lemma level_relpow: "x \<in> set (level h t i) \<Longrightarrow> heap_ok n h \<Longrightarrow> (t, x) \<in> parent_rel h ^^ i"
proof (induction i arbitrary: x)
  case 0
  then show ?case by simp
next
  case (Suc i)
  from Suc.prems(1) obtain y where y: "y \<in> set (level h t i)" and xy: "x \<in> set (children (h y))"
    by auto
  from Suc.prems(2) xy have "(y, x) \<in> parent_rel h" by (auto simp: heap_ok_def parent_rel_def)
  with Suc.IH[OF y Suc.prems(2)] show ?case by auto
qed

lemma relpow_back:
  "(a, x) \<in> parent_rel h ^^ i \<Longrightarrow> (b, x) \<in> parent_rel h ^^ (i + d) \<Longrightarrow> (b, a) \<in> parent_rel h ^^ d"
proof (induction i arbitrary: x)
  case 0
  then show ?case by simp
next
  case (Suc i)
  from Suc.prems(1) obtain y where ay: "(a, y) \<in> parent_rel h ^^ i" and yx: "(y, x) \<in> parent_rel h"
    by auto
  from Suc.prems(2) obtain y' where by': "(b, y') \<in> parent_rel h ^^ (i + d)"
    and yx': "(y', x) \<in> parent_rel h" by auto
  from yx yx' have "y' = y" by (simp add: parent_rel_def)
  with by' Suc.IH[OF ay] show ?case by simp
qed

lemma levels_disjoint:
  assumes ok: "heap_ok n h" and ij: "i < j"
  shows "set (level h t i) \<inter> set (level h t j) = {}"
proof (rule ccontr)
  assume "set (level h t i) \<inter> set (level h t j) \<noteq> {}"
  then obtain x where xi: "x \<in> set (level h t i)" and xj: "x \<in> set (level h t j)" by auto
  from ij obtain d where j: "j = i + Suc d" by (metis less_imp_Suc_add add_Suc_right)
  from level_relpow[OF xi ok] level_relpow[OF xj ok] j
  have "(t, t) \<in> parent_rel h ^^ Suc d" using relpow_back by blast
  then have "(t, t) \<in> (parent_rel h)\<^sup>+" by (metis trancl_power zero_less_Suc)
  moreover from ok have "acyclic (parent_rel h)" by (simp add: heap_ok_def)
  ultimately show False by (auto simp: acyclic_def)
qed

lemma next_level_distinct:
  assumes ok: "heap_ok n h"
  shows "distinct cs \<Longrightarrow> distinct (next_level h cs)"
proof (induction cs)
  case Nil
  show ?case by (simp add: next_level_def)
next
  case (Cons c cs)
  from ok have d: "distinct (children (h c))" by (simp add: heap_ok_def)
  have dis: "set (children (h c)) \<inter> set (next_level h cs) = {}"
  proof (rule ccontr)
    assume "set (children (h c)) \<inter> set (next_level h cs) \<noteq> {}"
    then obtain x c' where "x \<in> set (children (h c))" "c' \<in> set cs" "x \<in> set (children (h c'))"
      by (auto simp: next_level_def)
    with ok have "parent (h x) = Some c" "parent (h x) = Some c'" by (auto simp: heap_ok_def)
    with \<open>c' \<in> set cs\<close> Cons.prems show False by auto
  qed
  from Cons.IH Cons.prems have "distinct (next_level h cs)" by simp
  with d dis show ?case using next_level_append[of h "[c]" cs] by (simp add: next_level_def)
qed

lemma level_distinct: "heap_ok n h \<Longrightarrow> distinct (level h t i)"
proof (induction i)
  case 0
  show ?case by simp
next
  case (Suc i)
  from next_level_distinct[OF Suc.prems Suc.IH[OF Suc.prems]] show ?case
    by (simp add: next_level_def)
qed

lemma levels_distinct:
  assumes ok: "heap_ok n h"
  shows "distinct (concat (map (level h t) [0..<k]))"
proof (induction k)
  case 0
  show ?case by simp
next
  case (Suc k)
  have "\<And>i. i < k \<Longrightarrow> set (level h t i) \<inter> set (level h t k) = {}"
    by (rule levels_disjoint[OF ok])
  then have "set (concat (map (level h t) [0..<k])) \<inter> set (level h t k) = {}"
    by fastforce
  with Suc.IH level_distinct[OF ok, of t k] show ?case by simp
qed

lemma build_tree_state_ok:
  assumes "build_tree df = Some (Inr (t, st))"
  shows "state_ok st"
proof -
  from assms have "build_nodes df = Some (Inr st)"
    by (auto simp: build_tree_def split: option.splits sum.splits)
  with build_nodes_ok[of df] show ?thesis by auto
qed

text \<open>
  C8. For every tree that \<open>build_tree\<close> returns, the breadth-first traversal ends and
  yields a level-order sequence: the levels of the tree one after the other, each node
  once. It starts with the root, followed by the children of the root and then their
  children; for every node it yields, all children of the node come before any of its
  grandchildren; and since the traversal only reads the tree, asking for it again any
  number of times yields the same sequence.
\<close>

theorem traverse_tree_level_order:
  assumes "build_tree df = Some (Inr (t, st))"
  shows "\<exists>ys k. traverse_tree (heap st) t = Some ys \<and>
           ys = concat (map (level (heap st) t) [0..<k]) \<and> level (heap st) t k = [] \<and>
           distinct ys \<and>
           (\<exists>rest. ys = t # children (heap st t) @
                      concat (map (\<lambda>c. children (heap st c)) (children (heap st t))) @ rest) \<and>
           (\<forall>n c g. n \<in> set ys \<longrightarrow> c \<in> set (children (heap st n)) \<longrightarrow>
                    g \<in> set (children (heap st c)) \<longrightarrow>
                    (\<exists>pre mid post. ys = pre @ c # mid @ g # post)) \<and>
           (\<forall>m. replicate m (traverse_tree (heap st) t) = replicate m (Some ys))"
proof -
  from build_tree_state_ok[OF assms] have ok: "heap_ok (fresh st) (heap st)"
    by (simp add: state_ok_def)
  from traverse_levels[OF ok, of t] obtain k where e: "level (heap st) t k = []"
    and tr: "traverse_tree (heap st) t = Some (concat (map (level (heap st) t) [0..<k]))"
    by blast
  let ?ys = "concat (map (level (heap st) t) [0..<k])"
  have d: "distinct ?ys" by (rule levels_distinct[OF ok])
  have p: "\<exists>rest. ?ys = t # children (heap st t) @
                      concat (map (\<lambda>c. children (heap st c)) (children (heap st t))) @ rest"
    by (rule levels_prefix[OF e])
  have g: "\<forall>n c g. n \<in> set ?ys \<longrightarrow> c \<in> set (children (heap st n)) \<longrightarrow>
                    g \<in> set (children (heap st c)) \<longrightarrow>
                    (\<exists>pre mid post. ?ys = pre @ c # mid @ g # post)"
    using levels_children_first[OF e] by blast
  have r: "\<forall>m. replicate m (traverse_tree (heap st) t) = replicate m (Some ?ys)"
    using tr by simp
  from tr e d p g r show ?thesis by blast
qed

lemma two_level_build:
  "case build_tree (map example_row [''-> R'', ''R -> A'', ''R -> B'', ''A -> C'']) of
     Some (Inr (t, st)) \<Rightarrow> t = 0
   | _ \<Rightarrow> False"
  by code_simp

theorem traverse_tree_level_order_witness:
  "\<exists>st. build_tree (map example_row [''-> R'', ''R -> A'', ''R -> B'', ''A -> C''])
           = Some (Inr (0, st)) \<and>
        (\<exists>ys k. traverse_tree (heap st) 0 = Some ys \<and>
           ys = concat (map (level (heap st) 0) [0..<k]) \<and> level (heap st) 0 k = [] \<and>
           distinct ys \<and>
           (\<exists>rest. ys = 0 # children (heap st 0) @
                      concat (map (\<lambda>c. children (heap st c)) (children (heap st 0))) @ rest) \<and>
           (\<forall>m. replicate m (traverse_tree (heap st) 0) = replicate m (Some ys)))"
proof -
  let ?df = "map example_row [''-> R'', ''R -> A'', ''R -> B'', ''A -> C'']"
  from two_level_build obtain t st where b0: "build_tree ?df = Some (Inr (t, st))"
    by (cases "build_tree ?df") (auto split: sum.splits)
  with two_level_build have "t = 0" by simp
  with b0 have b: "build_tree ?df = Some (Inr (0, st))" by simp
  from traverse_tree_level_order[OF b] b show ?thesis by blast
qed

end
